theory Spec2Isabelle
  imports Main "HOL-Library.Sublist"
begin

section \<open>JavaScript values, objects and strings\<close>

text \<open>
  The helper is TypeScript; its parameters are typed \<open>any\<close>. A value is \<open>undefined\<close>,
  \<open>null\<close>, an opaque scalar or an array of values. Strings are lists of \<open>char\<close>
  (one \<open>char\<close> per code unit; the model covers 8-bit text).
\<close>

datatype 'v jsval = Undefined | Null | Scalar 'v | Array "'v jsval list"

text \<open>
  An object is the list of its own properties in insertion order, each name once.
\<close>

type_synonym 'v js_object = "(string \<times> 'v jsval) list"

definition is_digit :: "char \<Rightarrow> bool" where
  "is_digit c = (c \<in> set ''0123456789'')"

definition digit_char :: "nat \<Rightarrow> char" where
  "digit_char d = ''0123456789'' ! d"

definition digit_val :: "char \<Rightarrow> nat" where
  "digit_val c = of_char c - 48"

text \<open>\<open>String(n)\<close> for a non-negative integer: its decimal digits.\<close>

function show_nat :: "nat \<Rightarrow> string" where
  "show_nat n = (if n < 10 then [digit_char n] else show_nat (n div 10) @ [digit_char (n mod 10)])"
  by pat_completeness auto
termination
  by (relation "measure (\<lambda>n. n)") auto

declare show_nat.simps [simp del]

text \<open>The number a run of decimal digits denotes, most significant digit first.\<close>

definition digits_value :: "string \<Rightarrow> nat" where
  "digits_value s = foldl (\<lambda>acc c. 10 * acc + digit_val c) 0 s"

text \<open>
  A property name is an array index when it is the canonical decimal form of an integer
  below \<open>2^32 - 1\<close>. \<open>Object.keys\<close> lists the array indices first, in ascending numeric
  order, and then the other names in insertion order.
\<close>

definition array_index :: "string \<Rightarrow> nat option" where
  "array_index s =
     (if s \<noteq> [] \<and> list_all is_digit s \<and> show_nat (digits_value s) = s
          \<and> digits_value s < 4294967295
      then Some (digits_value s) else None)"

definition Object_keys :: "(string \<times> 'a) list \<Rightarrow> string list" where
  "Object_keys obj =
     (let ks = map fst obj
      in sort_key (\<lambda>k. the (array_index k)) (filter (\<lambda>k. array_index k \<noteq> None) ks)
         @ filter (\<lambda>k. array_index k = None) ks)"

text \<open>\<open>obj[key]\<close>: the property's value, \<open>undefined\<close> when there is none.\<close>

definition js_get :: "'v js_object \<Rightarrow> string \<Rightarrow> 'v jsval" where
  "js_get obj key = (case map_of obj key of None \<Rightarrow> Undefined | Some v \<Rightarrow> v)"

text \<open>\<open>isArray(item)\<close> is \<open>item && Array.isArray(item)\<close>; every array is truthy.\<close>

fun isArray :: "'v jsval \<Rightarrow> bool" where
  "isArray (Array xs) = True"
| "isArray v = False"

text \<open>The items a \<open>for ... of\<close> loop visits: those of an array.\<close>

fun array_items :: "'v jsval \<Rightarrow> 'v jsval list" where
  "array_items (Array xs) = xs"
| "array_items v = []"

definition startsWith_dollar :: "string \<Rightarrow> bool" where
  "startsWith_dollar key = (case key of [] \<Rightarrow> False | c # cs \<Rightarrow> c = CHR ''$'')"

section \<open>The regular expressions built from parameter names\<close>

text \<open>
  \<open>transformQuery\<close> turns a key into a pattern with
  \<open>key.replace(/\$/g, "\\$")\<close> and \<open>new RegExp(escapedKey, "g")\<close>: only the dollar
  sign is escaped, every other character of the key is pattern syntax.
\<close>

definition backslash :: char where
  "backslash = CHR 0x5C"

definition escapeDollar :: "string \<Rightarrow> string" where
  "escapeDollar key = concat (map (\<lambda>c. if c = CHR ''$'' then [backslash, c] else [c]) key)"

text \<open>
  The fragment of pattern syntax that is modelled: an escaped dollar sign and an ordinary
  character match themselves, the dot matches any character but a line terminator.
  A pattern with any other operator is outside the fragment (\<open>None\<close>).
\<close>

datatype rx_atom = Lit char | AnyChar

definition rx_special :: "char \<Rightarrow> bool" where
  "rx_special c = (c \<in> set ''^.*+?()[]{}|'' \<or> c = backslash)"

fun RegExp_new :: "string \<Rightarrow> rx_atom list option" where
  "RegExp_new [] = Some []"
| "RegExp_new (c # cs) =
     (if c = backslash then
        (case cs of
           [] \<Rightarrow> None
         | d # ds \<Rightarrow> if d = CHR ''$'' then map_option (Cons (Lit d)) (RegExp_new ds) else None)
      else if c = CHR ''.'' then map_option (Cons AnyChar) (RegExp_new cs)
      else if rx_special c \<or> c = CHR ''$'' then None
      else map_option (Cons (Lit c)) (RegExp_new cs))"

fun atom_matches :: "rx_atom \<Rightarrow> char \<Rightarrow> bool" where
  "atom_matches (Lit d) c = (c = d)"
| "atom_matches AnyChar c = (c \<noteq> CHR 0x0A \<and> c \<noteq> CHR 0x0D)"

fun matches_at :: "rx_atom list \<Rightarrow> string \<Rightarrow> bool" where
  "matches_at [] s = True"
| "matches_at (a # as) [] = False"
| "matches_at (a # as) (c # cs) = (atom_matches a c \<and> matches_at as cs)"

text \<open>\<open>rx.test(s)\<close> on a fresh global pattern: is there a match anywhere in \<open>s\<close>.\<close>

fun rx_test :: "rx_atom list \<Rightarrow> string \<Rightarrow> bool" where
  "rx_test p [] = (p = [])"
| "rx_test p (c # cs) = (matches_at p (c # cs) \<or> rx_test p cs)"

text \<open>
  \<open>s.replace(rx, r)\<close> with a global pattern: the matches are found left to right, each
  search starting where the previous match ended (one character further after an empty
  match), and each is replaced by \<open>r\<close>. The fragment has no capture group, so a
  \<open>$\<close> followed by digits in \<open>r\<close> stands for itself; the replacement texts of
  \<open>transformQuery\<close> contain \<open>$\<close> only in that position.
\<close>

function rx_replace :: "rx_atom list \<Rightarrow> string \<Rightarrow> string \<Rightarrow> string" where
  "rx_replace p r [] = (if p = [] then r else [])"
| "rx_replace p r (c # cs) =
     (if matches_at p (c # cs) then
        (if p = [] then r @ c # rx_replace p r cs
         else r @ rx_replace p r (drop (length p - 1) cs))
      else c # rx_replace p r cs)"
  by pat_completeness auto
termination
  by (relation "measure (\<lambda>(p, r, s). length s)") auto

section \<open>transformQuery\<close>

datatype error =
    InvalidParameterName string
  | UnmodelledRegExp string
  | DbError string

text \<open>
  \<open>in_params\<close> is absent, an array or an object.
\<close>

datatype 'v params = NoParams | ParamArray "'v jsval list" | ParamObject "'v js_object"

text \<open>
  The inner loop over the items of an array value: each item is pushed, and its
  placeholder is appended to \<open>concatKeys\<close>, after a comma unless \<open>concatKeys\<close> is
  still empty.
\<close>

fun spread :: "'v jsval list \<Rightarrow> 'v jsval list \<times> string \<Rightarrow> 'v jsval list \<times> string" where
  "spread [] st = st"
| "spread (item # items) (out_parameters, concatKeys) =
     spread items
       (out_parameters @ [item],
        concatKeys @ (if concatKeys \<noteq> [] then '', '' else [])
          @ ''$'' @ show_nat (length (out_parameters @ [item])))"

text \<open>
  The loop over the sorted keys, on the state \<open>(out_query, out_parameters)\<close>.
  A key outside the pattern fragment ends the model's run with \<open>UnmodelledRegExp\<close>.
\<close>

fun transformLoop ::
  "'v js_object \<Rightarrow> string list \<Rightarrow> string \<times> 'v jsval list \<Rightarrow> error + string \<times> 'v jsval list" where
  "transformLoop in_params [] st = Inr st"
| "transformLoop in_params (key # keys) (out_query, out_parameters) =
     (if \<not> startsWith_dollar key then Inl (InvalidParameterName key)
      else case RegExp_new (escapeDollar key) of
        None \<Rightarrow> Inl (UnmodelledRegExp key)
      | Some rxKey \<Rightarrow>
          if \<not> rx_test rxKey out_query then transformLoop in_params keys (out_query, out_parameters)
          else if isArray (js_get in_params key) then
            (case spread (array_items (js_get in_params key)) (out_parameters, []) of
               (out_parameters', concatKeys) \<Rightarrow>
                 transformLoop in_params keys
                   (rx_replace rxKey concatKeys out_query, out_parameters'))
          else
            transformLoop in_params keys
              (rx_replace rxKey (''$'' @ show_nat (length (out_parameters @ [js_get in_params key])))
                 out_query,
               out_parameters @ [js_get in_params key]))"

text \<open>
  \<open>keys.sort((a, b) => b.length - a.length)\<close>: a stable sort, longest key first.
\<close>

definition sortKeys :: "string list \<Rightarrow> string list" where
  "sortKeys keys = sort_key (\<lambda>k. - int (length k)) keys"

definition transformQuery ::
  "string \<Rightarrow> 'v params \<Rightarrow> error + string \<times> 'v jsval list option" where
  "transformQuery in_query in_params =
     (case in_params of
        NoParams \<Rightarrow> Inr (in_query, None)
      | ParamArray xs \<Rightarrow> Inr (in_query, Some xs)
      | ParamObject obj \<Rightarrow>
          (case transformLoop obj (sortKeys (Object_keys obj)) (in_query, []) of
             Inl e \<Rightarrow> Inl e
           | Inr (out_query, out_parameters) \<Rightarrow> Inr (out_query, Some out_parameters)))"

section \<open>The pool, its clients and the query functions\<close>

text \<open>
  The pool and the database are outside the helper. \<open>connect\<close> is what
  \<open>pool.connect()\<close> settles to: a failure or a client handle. \<open>run c q ps\<close> is what
  \<open>client.query(q, ps)\<close> settles to on client \<open>c\<close>: a failure or the rows. Every call
  on the pool or on a client is recorded in a log, in order.
\<close>

record 'v db =
  connect :: "string + nat"
  run :: "nat \<Rightarrow> string \<Rightarrow> 'v jsval list option \<Rightarrow> string + 'v js_object list"

datatype 'v event =
    Acquired nat
  | Ran nat string "'v jsval list option"
  | Released nat

text \<open>
  The \<open>try\<close> block of \<open>queryMultiple\<close>: transform, then run on the client. An
  exception of either step is rethrown by the \<open>catch\<close> block after logging.
\<close>

definition tryQuery ::
  "'v db \<Rightarrow> nat \<Rightarrow> string \<Rightarrow> 'v params \<Rightarrow> 'v event list
     \<Rightarrow> (error + 'v js_object list) \<times> 'v event list" where
  "tryQuery db client query queryParams log =
     (case transformQuery query queryParams of
        Inl err \<Rightarrow> (Inl err, log)
      | Inr (q, ps) \<Rightarrow>
          (case run db client q ps of
             Inl e \<Rightarrow> (Inl (DbError e), log @ [Ran client q ps])
           | Inr rows \<Rightarrow> (Inr rows, log @ [Ran client q ps])))"

text \<open>
  \<open>queryMultiple(query, queryParams, client)\<close>. Without a client one is taken from the
  pool first, outside the \<open>try\<close> block; the \<open>finally\<close> block releases it when
  \<open>isClientCreatedHere\<close>.
\<close>

definition queryMultiple ::
  "'v db \<Rightarrow> string \<Rightarrow> 'v params \<Rightarrow> nat option \<Rightarrow> 'v event list
     \<Rightarrow> (error + 'v js_object list) \<times> 'v event list" where
  "queryMultiple db query queryParams client log =
     (case client of
        None \<Rightarrow>
          (case connect db of
             Inl e \<Rightarrow> (Inl (DbError e), log)
           | Inr c \<Rightarrow>
               (case tryQuery db c query queryParams (log @ [Acquired c]) of
                  (res, log') \<Rightarrow> (res, log' @ [Released c])))
      | Some c \<Rightarrow> tryQuery db c query queryParams log)"

text \<open>
  The earlier version of \<open>queryMultiple\<close> (\<open>src/lib/pg-client-helper.ts\<close>) takes no
  client: it connects inside the \<open>try\<close> block and releases in \<open>finally\<close> when the
  client was obtained.
\<close>

definition queryMultiple_v1 ::
  "'v db \<Rightarrow> string \<Rightarrow> 'v params \<Rightarrow> 'v event list
     \<Rightarrow> (error + 'v js_object list) \<times> 'v event list" where
  "queryMultiple_v1 db query queryParams log =
     (case connect db of
        Inl e \<Rightarrow> (Inl (DbError e), log)
      | Inr c \<Rightarrow>
          (case tryQuery db c query queryParams (log @ [Acquired c]) of
             (res, log') \<Rightarrow> (res, log' @ [Released c])))"

definition query ::
  "'v db \<Rightarrow> string \<Rightarrow> 'v params \<Rightarrow> nat option \<Rightarrow> 'v event list
     \<Rightarrow> (error + unit) \<times> 'v event list" where
  "query db q queryParams client log =
     (case queryMultiple db q queryParams client log of
        (Inl e, log') \<Rightarrow> (Inl e, log')
      | (Inr rows, log') \<Rightarrow> (Inr (), log'))"

text \<open>\<open>rows[0]\<close> is \<open>undefined\<close> (\<open>None\<close>) when there is no row.\<close>

definition querySingle ::
  "'v db \<Rightarrow> string \<Rightarrow> 'v params \<Rightarrow> nat option \<Rightarrow> 'v event list
     \<Rightarrow> (error + 'v js_object option) \<times> 'v event list" where
  "querySingle db q queryParams client log =
     (case queryMultiple db q queryParams client log of
        (Inl e, log') \<Rightarrow> (Inl e, log')
      | (Inr rows, log') \<Rightarrow> (Inr (case rows of [] \<Rightarrow> None | row # rest \<Rightarrow> Some row), log'))"

text \<open>
  \<open>row[Object.keys(row)[0]]\<close>: a row without property has no first key, and the lookup
  of \<open>undefined\<close> as a name finds nothing.
\<close>

definition firstValue :: "'v js_object \<Rightarrow> 'v jsval" where
  "firstValue row = (case Object_keys row of [] \<Rightarrow> Undefined | k # ks \<Rightarrow> js_get row k)"

definition queryScalar ::
  "'v db \<Rightarrow> string \<Rightarrow> 'v params \<Rightarrow> nat option \<Rightarrow> 'v event list
     \<Rightarrow> (error + 'v jsval) \<times> 'v event list" where
  "queryScalar db q queryParams client log =
     (case querySingle db q queryParams client log of
        (Inl e, log') \<Rightarrow> (Inl e, log')
      | (Inr None, log') \<Rightarrow> (Inr Null, log')
      | (Inr (Some row), log') \<Rightarrow> (Inr (firstValue row), log'))"

section \<open>Transactions\<close>

definition beginTransaction ::
  "'v db \<Rightarrow> 'v event list \<Rightarrow> (error + nat) \<times> 'v event list" where
  "beginTransaction db log =
     (case connect db of
        Inl e \<Rightarrow> (Inl (DbError e), log)
      | Inr client \<Rightarrow>
          (case run db client ''BEGIN'' None of
             Inl e \<Rightarrow> (Inl (DbError e), log @ [Acquired client, Ran client ''BEGIN'' None])
           | Inr rows \<Rightarrow> (Inr client, log @ [Acquired client, Ran client ''BEGIN'' None])))"

definition commitTransaction ::
  "'v db \<Rightarrow> nat \<Rightarrow> 'v event list \<Rightarrow> (error + unit) \<times> 'v event list" where
  "commitTransaction db client log =
     (case run db client ''COMMIT'' None of
        Inl e \<Rightarrow> (Inl (DbError e), log @ [Ran client ''COMMIT'' None])
      | Inr rows \<Rightarrow> (Inr (), log @ [Ran client ''COMMIT'' None, Released client]))"

definition rollbackTransaction ::
  "'v db \<Rightarrow> nat \<Rightarrow> 'v event list \<Rightarrow> (error + unit) \<times> 'v event list" where
  "rollbackTransaction db client log =
     (case run db client ''ROLLBACK'' None of
        Inl e \<Rightarrow> (Inl (DbError e), log @ [Ran client ''ROLLBACK'' None])
      | Inr rows \<Rightarrow> (Inr (), log @ [Ran client ''ROLLBACK'' None, Released client]))"

text \<open>How often a handle is released in a log.\<close>

definition releases :: "nat \<Rightarrow> 'v event list \<Rightarrow> nat" where
  "releases c log = length (filter (\<lambda>ev. ev = Released c) log)"

section \<open>Literal text, for comparison\<close>

text \<open>
  What the rewriting is meant to do, written on plain text without patterns:
  \<open>occurs k s\<close> says that the text \<open>k\<close> occurs in \<open>s\<close>, and \<open>replace_all k r s\<close>
  replaces the occurrences of a non-empty \<open>k\<close> in \<open>s\<close> by \<open>r\<close>, from left to right,
  continuing after each occurrence.
\<close>

fun occurs :: "string \<Rightarrow> string \<Rightarrow> bool" where
  "occurs k [] = (k = [])"
| "occurs k (c # cs) = (prefix k (c # cs) \<or> occurs k cs)"

function replace_all :: "string \<Rightarrow> string \<Rightarrow> string \<Rightarrow> string" where
  "replace_all k r [] = []"
| "replace_all k r (c # cs) =
     (if prefix k (c # cs) then r @ replace_all k r (drop (length k - 1) cs)
      else c # replace_all k r cs)"
  by pat_completeness auto
termination
  by (relation "measure (\<lambda>(k, r, s). length s)") auto

text \<open>A key is literal when none of its characters is pattern syntax once \<open>$\<close> is escaped.\<close>

definition literal_key :: "string \<Rightarrow> bool" where
  "literal_key key = list_all (\<lambda>c. \<not> rx_special c) key"

text \<open>
  The positional placeholder of index \<open>i\<close>, and the comma-separated group of the
  placeholders \<open>n + 1, ..., n + m\<close>.
\<close>

definition placeholder :: "nat \<Rightarrow> string" where
  "placeholder i = ''$'' @ show_nat i"

fun placeholder_group :: "nat \<Rightarrow> nat \<Rightarrow> string" where
  "placeholder_group n 0 = []"
| "placeholder_group n (Suc m) =
     placeholder (n + 1) @ (if m = 0 then [] else '', '' @ placeholder_group (n + 1) m)"

section \<open>Named placeholders as tokens, for comparison\<close>

text \<open>
  A named placeholder is a \<open>$\<close>-prefixed identifier: \<open>$\<close>, then letters, digits and
  underscores, the first of them not a digit.
\<close>

definition ident_char :: "char \<Rightarrow> bool" where
  "ident_char c =
     (c \<in> set ''abcdefghijklmnopqrstuvwxyzABCDEFGHIJKLMNOPQRSTUVWXYZ0123456789_'')"

definition named_key :: "string \<Rightarrow> bool" where
  "named_key k =
     (case k of
        [] \<Rightarrow> False
      | c # body \<Rightarrow>
          c = CHR ''$'' \<and> body \<noteq> [] \<and> list_all ident_char body \<and> \<not> is_digit (hd body))"

text \<open>
  The tokens of a query: at every \<open>$\<close>, the \<open>$\<close> with the longest run of identifier
  characters after it.
\<close>

fun tokens :: "string \<Rightarrow> string list" where
  "tokens [] = []"
| "tokens (c # cs) =
     (if c = CHR ''$'' then (c # takeWhile ident_char cs) # tokens cs else tokens cs)"

text \<open>
  Substitution by tokens: every token \<open>t\<close> of the query is replaced, as a whole, by
  \<open>f t\<close>; the text between tokens stays.
\<close>

function subst :: "(string \<Rightarrow> string) \<Rightarrow> string \<Rightarrow> string" where
  "subst f [] = []"
| "subst f (c # cs) =
     (if c = CHR ''$'' then f (c # takeWhile ident_char cs) @ subst f (dropWhile ident_char cs)
      else c # subst f cs)"
  by pat_completeness auto
termination
  by (relation "measure (\<lambda>(f, s). length s)") (auto simp: less_Suc_eq_le length_dropWhile_le)

text \<open>
  The indices of the positional placeholders of a text, in order: at every \<open>$\<close> that
  is followed by a digit, the number written by the longest run of digits.
\<close>

function placeholders :: "string \<Rightarrow> nat list" where
  "placeholders [] = []"
| "placeholders (c # cs) =
     (if c = CHR ''$'' \<and> takeWhile is_digit cs \<noteq> []
      then digits_value (takeWhile is_digit cs) # placeholders (dropWhile is_digit cs)
      else placeholders cs)"
  by pat_completeness auto
termination
  by (relation "measure length") (auto simp: less_Suc_eq_le length_dropWhile_le)

text \<open>
  The texts given to the keys, and the parameter list, as the order of the keys
  determines them: each key that is a token of the query receives the next indices.
\<close>

fun assign ::
  "'v js_object \<Rightarrow> string \<Rightarrow> string list \<Rightarrow> (string \<Rightarrow> string) \<times> 'v jsval list
     \<Rightarrow> (string \<Rightarrow> string) \<times> 'v jsval list" where
  "assign obj q [] st = st"
| "assign obj q (key # keys) (f, out) =
     (if key \<in> set (tokens q) then
        (if isArray (js_get obj key) then
           assign obj q keys
             (f(key := placeholder_group (length out) (length (array_items (js_get obj key)))),
              out @ array_items (js_get obj key))
         else
           assign obj q keys (f(key := placeholder (length out + 1)), out @ [js_get obj key]))
      else assign obj q keys (f, out))"

text \<open>
  The values a key contributes to the parameter list: the items of an array, or the
  value itself. The keys that are tokens of the query, in the given order.
\<close>

definition param_values :: "'v js_object \<Rightarrow> string \<Rightarrow> 'v jsval list" where
  "param_values obj key =
     (if isArray (js_get obj key) then array_items (js_get obj key) else [js_get obj key])"

definition found_keys :: "string \<Rightarrow> string list \<Rightarrow> string list" where
  "found_keys q keys = filter (\<lambda>k. k \<in> set (tokens q)) keys"

text \<open>A text in which every \<open>$\<close> is followed by a digit.\<close>

fun dollar_digit :: "string \<Rightarrow> bool" where
  "dollar_digit [] = True"
| "dollar_digit (c # cs) = ((c \<noteq> CHR ''$'' \<or> (cs \<noteq> [] \<and> is_digit (hd cs))) \<and> dollar_digit cs)"

text \<open>A text that is empty or begins with a character that cannot continue an identifier.\<close>

definition nonident_start :: "string \<Rightarrow> bool" where
  "nonident_start s = (s = [] \<or> \<not> ident_char (hd s))"

text \<open>A text that is empty or begins with a character that is no digit.\<close>

definition nondigit_start :: "string \<Rightarrow> bool" where
  "nondigit_start s = (s = [] \<or> \<not> is_digit (hd s))"

text \<open>The text of some group of placeholders.\<close>

definition group_text :: "string \<Rightarrow> bool" where
  "group_text u = (\<exists>a m. u = placeholder_group a m)"

text \<open>
  The state of the tokens of \<open>q\<close> while the keys \<open>keys\<close> remain to be processed: a
  token still stands for itself, and then it is a remaining key or no remaining key is a
  prefix of it; or it is no remaining key and has been given the text of a group.
\<close>

definition pending :: "(string \<Rightarrow> string) \<Rightarrow> string list \<Rightarrow> string \<Rightarrow> bool" where
  "pending f keys q =
     (\<forall>t \<in> set (tokens q).
        (f t = t \<and> (t \<in> set keys \<or> (\<forall>k \<in> set keys. \<not> prefix k t)))
        \<or> (t \<notin> set keys \<and> group_text (f t)))"

text \<open>
  The state of the tokens of \<open>q\<close> when the key \<open>k\<close> is processed: a token still
  stands for itself, and then it is \<open>k\<close> or \<open>k\<close> is no prefix of it; or it is not
  \<open>k\<close> and has been given the text of a group.
\<close>

definition ready :: "(string \<Rightarrow> string) \<Rightarrow> string \<Rightarrow> string \<Rightarrow> bool" where
  "ready f k q =
     (\<forall>t \<in> set (tokens q).
        (f t = t \<and> (t = k \<or> \<not> prefix k t)) \<or> (t \<noteq> k \<and> group_text (f t)))"

text \<open>
  The first column of a row in the order the columns were declared, that is, in the
  insertion order of the row object.
\<close>

definition firstDeclared :: "'v js_object \<Rightarrow> 'v jsval" where
  "firstDeclared row = (case row of [] \<Rightarrow> Undefined | (k, v) # rest \<Rightarrow> v)"

section \<open>Properties\<close>

subsection \<open>Connection handles\<close>

lemma releases_append: "releases c (xs @ ys) = releases c xs + releases c ys"
  by (simp add: releases_def)

lemma tryQuery_log:
  "\<exists>res evs. tryQuery db c q ps log = (res, log @ evs)
      \<and> (\<forall>c'. Released c' \<notin> set evs \<and> Acquired c' \<notin> set evs)"
  by (auto simp: tryQuery_def split: sum.splits prod.splits)

text \<open>
  Claim C4. A call of \<open>queryMultiple\<close> without a client either fails to connect, and
  then touches no handle, or acquires a handle \<open>c\<close> and ends, whatever the outcome of
  the transformation and of the query, with the release of \<open>c\<close> as its last step and no
  other release. A call with a client releases nothing and acquires nothing.
  \<open>query\<close>, \<open>querySingle\<close> and \<open>queryScalar\<close> leave the same log as
  \<open>queryMultiple\<close>, and the earlier version without the client parameter behaves as
  the call without a client.
\<close>

theorem queryMultiple_release:
  "(case connect db of
      Inl e \<Rightarrow> queryMultiple db q ps None log = (Inl (DbError e), log)
    | Inr c \<Rightarrow>
        (\<exists>res evs. queryMultiple db q ps None log = (res, log @ [Acquired c] @ evs @ [Released c])
           \<and> (\<forall>c'. Released c' \<notin> set evs \<and> Acquired c' \<notin> set evs)))
   \<and> (\<exists>res evs. queryMultiple db q ps (Some c0) log = (res, log @ evs)
           \<and> (\<forall>c'. Released c' \<notin> set evs \<and> Acquired c' \<notin> set evs))
   \<and> snd (query db q ps client log) = snd (queryMultiple db q ps client log)
   \<and> snd (querySingle db q ps client log) = snd (queryMultiple db q ps client log)
   \<and> snd (queryScalar db q ps client log) = snd (queryMultiple db q ps client log)
   \<and> queryMultiple_v1 db q ps log = queryMultiple db q ps None log"
proof -
  have own: "case connect db of
      Inl e \<Rightarrow> queryMultiple db q ps None log = (Inl (DbError e), log)
    | Inr c \<Rightarrow>
        (\<exists>res evs. queryMultiple db q ps None log = (res, log @ [Acquired c] @ evs @ [Released c])
           \<and> (\<forall>c'. Released c' \<notin> set evs \<and> Acquired c' \<notin> set evs))"
  proof (cases "connect db")
    case (Inl e)
    then show ?thesis by (simp add: queryMultiple_def)
  next
    case (Inr c)
    obtain res evs where t: "tryQuery db c q ps (log @ [Acquired c]) = (res, (log @ [Acquired c]) @ evs)"
      and e: "\<forall>c'. Released c' \<notin> set evs \<and> Acquired c' \<notin> set evs"
      using tryQuery_log by blast
    have "queryMultiple db q ps None log = (res, log @ [Acquired c] @ evs @ [Released c])"
      using Inr t by (simp add: queryMultiple_def)
    with e Inr show ?thesis by auto
  qed
  have given: "\<exists>res evs. queryMultiple db q ps (Some c0) log = (res, log @ evs)
           \<and> (\<forall>c'. Released c' \<notin> set evs \<and> Acquired c' \<notin> set evs)"
    using tryQuery_log [of db c0 q ps log] by (simp add: queryMultiple_def)
  have q1: "snd (query db q ps client log) = snd (queryMultiple db q ps client log)"
    by (simp add: query_def split: prod.splits sum.splits)
  have q2: "snd (querySingle db q ps client log) = snd (queryMultiple db q ps client log)"
    by (simp add: querySingle_def split: prod.splits sum.splits)
  have q3: "snd (queryScalar db q ps client log) = snd (queryMultiple db q ps client log)"
    using q2 by (auto simp: queryScalar_def split: prod.splits sum.splits option.splits)
  have v1: "queryMultiple_v1 db q ps log = queryMultiple db q ps None log"
    by (simp add: queryMultiple_v1_def queryMultiple_def)
  from own given q1 q2 q3 v1 show ?thesis by blast
qed

text \<open>
  The three exits of a call that owns its handle, and a call on a caller's handle:
  success, a failing query, a failing transformation.
\<close>

theorem queryMultiple_release_witness:
  "queryMultiple \<lparr>connect = Inr 4, run = (\<lambda>c q ps. Inr [])\<rparr> ''SELECT 1'' NoParams None
       ([] :: nat event list)
     = (Inr [], [Acquired 4, Ran 4 ''SELECT 1'' None, Released 4])
   \<and> queryMultiple \<lparr>connect = Inr 4, run = (\<lambda>c q ps. Inl ''syntax error'')\<rparr> ''SELEC 1''
       NoParams None ([] :: nat event list)
     = (Inl (DbError ''syntax error''), [Acquired 4, Ran 4 ''SELEC 1'' None, Released 4])
   \<and> queryMultiple \<lparr>connect = Inr 4, run = (\<lambda>c q ps. Inr [])\<rparr> ''SELECT 1''
       (ParamObject [(''name'', Scalar 0)]) None ([] :: nat event list)
     = (Inl (InvalidParameterName ''name''), [Acquired 4, Released 4])
   \<and> queryMultiple \<lparr>connect = Inr 4, run = (\<lambda>c q ps. Inl ''syntax error'')\<rparr> ''SELEC 1''
       NoParams (Some 7) ([] :: nat event list)
     = (Inl (DbError ''syntax error''), [Ran 7 ''SELEC 1'' None])"
proof -
  have nk: "sortKeys (Object_keys [(''name'', Scalar (0::nat))]) = [''name'']"
    by (simp add: sortKeys_def Object_keys_def array_index_def is_digit_def)
  show ?thesis
    using queryMultiple_release [of "\<lparr>connect = Inr 4, run = (\<lambda>c q ps. Inr [])\<rparr>"
        "''SELECT 1''" NoParams "[] :: nat event list" 7 None]
    by (simp add: queryMultiple_def tryQuery_def transformQuery_def nk startsWith_dollar_def)
qed

text \<open>
  Claim C5. \<open>beginTransaction\<close> has no release on any path. When \<open>pool.connect()\<close>
  succeeds and the \<open>BEGIN\<close> statement fails, the failure is propagated and no client is
  returned, but the acquired handle is not released: the log ends with the failed
  statement.
\<close>

theorem beginTransaction_leaks_on_failed_BEGIN:
  "beginTransaction \<lparr>connect = Inr 1, run = (\<lambda>c q ps. Inl ''server closed the connection'')\<rparr>
       ([] :: nat event list)
     = (Inl (DbError ''server closed the connection''), [Acquired 1, Ran 1 ''BEGIN'' None])
   \<and> releases 1 (snd (beginTransaction
         \<lparr>connect = Inr 1, run = (\<lambda>c q ps. Inl ''server closed the connection'')\<rparr>
         ([] :: nat event list))) = 0"
  by (simp add: beginTransaction_def releases_def)

text \<open>
  The log of the two functions that end a transaction: the statement is issued on the
  given handle, and the release follows only when the statement has succeeded.
\<close>

lemma end_transaction_log:
  "(case run db client ''COMMIT'' None of
      Inr rows \<Rightarrow>
        commitTransaction db client log
          = (Inr (), log @ [Ran client ''COMMIT'' None, Released client])
    | Inl e \<Rightarrow>
        commitTransaction db client log = (Inl (DbError e), log @ [Ran client ''COMMIT'' None]))
   \<and> (case run db client ''ROLLBACK'' None of
      Inr rows \<Rightarrow>
        rollbackTransaction db client log
          = (Inr (), log @ [Ran client ''ROLLBACK'' None, Released client])
    | Inl e \<Rightarrow>
        rollbackTransaction db client log
          = (Inl (DbError e), log @ [Ran client ''ROLLBACK'' None]))"
  by (simp add: commitTransaction_def rollbackTransaction_def split: sum.splits)

text \<open>
  Claim C6. The handle is to be released exactly once whether the statement succeeds or
  fails. \<open>commitTransaction\<close> and \<open>rollbackTransaction\<close> release after the awaited
  statement and have no \<open>finally\<close>: on a connection where \<open>BEGIN\<close> succeeds and
  every later statement fails, the failing \<open>COMMIT\<close> leaves the handle unreleased, the
  failing \<open>ROLLBACK\<close> after it as well, and at the end of the transaction the handle
  has not been released at all.
\<close>

theorem end_transaction_keeps_handle_on_failure:
  "beginTransaction
       \<lparr>connect = Inr 1,
        run = (\<lambda>c q ps. if q = ''BEGIN'' then Inr [] else Inl ''connection lost'')\<rparr>
       ([] :: nat event list)
     = (Inr 1, [Acquired 1, Ran 1 ''BEGIN'' None])
   \<and> commitTransaction
       \<lparr>connect = Inr 1,
        run = (\<lambda>c q ps. if q = ''BEGIN'' then Inr [] else Inl ''connection lost'')\<rparr> 1
       ([Acquired 1, Ran 1 ''BEGIN'' None] :: nat event list)
     = (Inl (DbError ''connection lost''),
        [Acquired 1, Ran 1 ''BEGIN'' None, Ran 1 ''COMMIT'' None])
   \<and> rollbackTransaction
       \<lparr>connect = Inr 1,
        run = (\<lambda>c q ps. if q = ''BEGIN'' then Inr [] else Inl ''connection lost'')\<rparr> 1
       ([Acquired 1, Ran 1 ''BEGIN'' None, Ran 1 ''COMMIT'' None] :: nat event list)
     = (Inl (DbError ''connection lost''),
        [Acquired 1, Ran 1 ''BEGIN'' None, Ran 1 ''COMMIT'' None, Ran 1 ''ROLLBACK'' None])
   \<and> releases 1
       ([Acquired 1, Ran 1 ''BEGIN'' None, Ran 1 ''COMMIT'' None, Ran 1 ''ROLLBACK'' None]
          :: nat event list) = 0"
  by (simp add: beginTransaction_def commitTransaction_def rollbackTransaction_def releases_def)

subsection \<open>The scalar projection\<close>

lemma array_index_b: "array_index ''b'' = None"
  by (simp add: array_index_def is_digit_def)

lemma array_index_1: "array_index ''1'' = Some 1"
  by (simp add: array_index_def is_digit_def digits_value_def digit_val_def show_nat.simps
      digit_char_def)

lemma Object_keys_no_index:
  "\<forall>k \<in> set (map fst obj). array_index k = None \<Longrightarrow> Object_keys obj = map fst obj"
proof -
  assume a: "\<forall>k \<in> set (map fst obj). array_index k = None"
  have "filter (\<lambda>k. array_index k \<noteq> None) (map fst obj) = []"
    using a by (simp add: filter_empty_conv)
  moreover have "filter (\<lambda>k. array_index k = None) (map fst obj) = map fst obj"
    using a by (simp add: filter_id_conv)
  ultimately show ?thesis by (simp add: Object_keys_def)
qed

text \<open>
  Claim C8, as stated: the value returned is that of the first declared column. It is
  not when a later column's name is an array index: \<open>Object.keys\<close> lists such a name
  before the others.
\<close>

theorem queryScalar_integer_named_column:
  "fst (queryScalar
          \<lparr>connect = Inr 1,
           run = (\<lambda>c q ps. Inr [[(''b'', Scalar ''first''), (''1'', Scalar ''second'')]])\<rparr>
          ''SELECT * FROM t'' NoParams None []) = Inr (Scalar ''second'')
   \<and> firstDeclared [(''b'', Scalar ''first''), (''1'', Scalar ''second'')] = Scalar ''first''"
  by (simp add: queryScalar_def querySingle_def queryMultiple_def tryQuery_def transformQuery_def
      firstValue_def Object_keys_def array_index_b array_index_1 js_get_def firstDeclared_def)

text \<open>
  Claim C8, amended. \<open>queryScalar\<close> returns \<open>null\<close> when the query yields no row and
  does not fail then; a failure of the query is propagated. On a non-empty result it
  returns the value of the first row's first key in \<open>Object.keys\<close> order, which is the
  first declared column whenever the row has a column and no column name is an array
  index.
\<close>

theorem queryScalar_result:
  "(queryMultiple db q ps client log = (Inr rows, log') \<longrightarrow>
      queryScalar db q ps client log
        = (Inr (case rows of [] \<Rightarrow> Null | row # rest \<Rightarrow> firstValue row), log'))
   \<and> (queryMultiple db q ps client log = (Inl e, log') \<longrightarrow>
      queryScalar db q ps client log = (Inl e, log'))
   \<and> ((\<forall>k \<in> set (map fst row). array_index k = None) \<and> row \<noteq> [] \<longrightarrow>
      firstValue row = firstDeclared row)"
proof -
  have "firstValue row = firstDeclared row"
    if a: "\<forall>k \<in> set (map fst row). array_index k = None" and b: "row \<noteq> []"
  proof -
    obtain k v rest where r: "row = (k, v) # rest"
      using b by (cases row) auto
    have "Object_keys row = map fst row"
      using a by (rule Object_keys_no_index)
    then show ?thesis
      using r by (simp add: firstValue_def firstDeclared_def js_get_def)
  qed
  then show ?thesis
    by (auto simp: queryScalar_def querySingle_def split: list.splits)
qed

theorem queryScalar_result_witness:
  "queryScalar \<lparr>connect = Inr 1, run = (\<lambda>c q ps. Inr [])\<rparr> ''SELECT 1 WHERE false'' NoParams None
       ([] :: nat event list)
     = (Inr Null, [Acquired 1, Ran 1 ''SELECT 1 WHERE false'' None, Released 1])
   \<and> firstValue [(''name'', Scalar ''John''), (''age'', Scalar ''25'')] = Scalar ''John''"
proof -
  have m: "queryMultiple \<lparr>connect = Inr 1, run = (\<lambda>c q ps. Inr [])\<rparr> ''SELECT 1 WHERE false''
      NoParams None ([] :: nat event list)
      = (Inr [], [Acquired 1, Ran 1 ''SELECT 1 WHERE false'' None, Released 1])"
    by (simp add: queryMultiple_def tryQuery_def transformQuery_def)
  have n: "\<forall>k \<in> set (map fst [(''name'', Scalar ''John''), (''age'', Scalar ''25'')]).
      array_index k = None"
    by (simp add: array_index_def is_digit_def)
  show ?thesis
    using queryScalar_result [of "\<lparr>connect = Inr 1, run = (\<lambda>c q ps. Inr [])\<rparr>"
        "''SELECT 1 WHERE false''" NoParams None "[] :: nat event list" "[]"
        "[Acquired 1, Ran 1 ''SELECT 1 WHERE false'' None, Released 1]" _
        "[(''name'', Scalar ''John''), (''age'', Scalar ''25'')]"] m n
    by (simp add: firstDeclared_def)
qed

subsection \<open>Parameter names\<close>

lemma backslash_neq [simp]: "backslash \<noteq> CHR ''$''" "CHR ''$'' \<noteq> backslash"
  by (simp_all add: backslash_def)

lemma rx_special_dot: "rx_special (CHR ''.'')" "rx_special backslash"
  by (simp_all add: rx_special_def)

lemma RegExp_new_literal:
  "literal_key k \<Longrightarrow> RegExp_new (escapeDollar k) = Some (map Lit k)"
proof (induction k)
  case Nil
  then show ?case by (simp add: escapeDollar_def)
next
  case (Cons c k)
  then have ih: "RegExp_new (escapeDollar k) = Some (map Lit k)" and nc: "\<not> rx_special c"
    by (simp_all add: literal_key_def)
  have e: "escapeDollar (c # k) = (if c = CHR ''$'' then [backslash, c] else [c]) @ escapeDollar k"
    by (simp add: escapeDollar_def)
  from nc have "c \<noteq> backslash" "c \<noteq> CHR ''.''"
    using rx_special_dot by auto
  then show ?case
    using ih nc by (simp add: e)
qed

lemma matches_at_literal: "matches_at (map Lit k) s = prefix k s"
proof (induction k arbitrary: s)
  case Nil
  then show ?case by simp
next
  case (Cons c k)
  then show ?case by (cases s) auto
qed

lemma rx_test_literal: "rx_test (map Lit k) s = occurs k s"
  by (induction s) (simp_all add: matches_at_literal del: matches_at.simps)

lemma rx_replace_literal: "k \<noteq> [] \<Longrightarrow> rx_replace (map Lit k) r s = replace_all k r s"
proof (induction k r s rule: replace_all.induct)
  case (1 k r)
  then show ?case by simp
next
  case (2 k r c cs)
  then show ?case
    by (simp add: matches_at_literal del: matches_at.simps)
qed

lemma transformLoop_invalid:
  "find (\<lambda>k. \<not> startsWith_dollar k) keys = Some bad
    \<Longrightarrow> \<forall>k \<in> set (takeWhile startsWith_dollar keys). RegExp_new (escapeDollar k) \<noteq> None
    \<Longrightarrow> transformLoop obj keys st = Inl (InvalidParameterName bad)"
proof (induction keys arbitrary: st)
  case Nil
  then show ?case by simp
next
  case (Cons key keys)
  obtain q out where st: "st = (q, out)" by (cases st)
  show ?case
  proof (cases "startsWith_dollar key")
    case False
    with Cons.prems(1) have "bad = key" by simp
    with False st show ?thesis by simp
  next
    case True
    with Cons.prems(1) have f: "find (\<lambda>k. \<not> startsWith_dollar k) keys = Some bad" by simp
    from Cons.prems(2) True
    have m: "\<forall>k \<in> set (takeWhile startsWith_dollar keys). RegExp_new (escapeDollar k) \<noteq> None"
      by simp
    from Cons.prems(2) True obtain rx where rx: "RegExp_new (escapeDollar key) = Some rx"
      by auto
    have ih: "\<And>st'. transformLoop obj keys st' = Inl (InvalidParameterName bad)"
      using Cons.IH [OF f m] .
    show ?thesis
      using True rx ih st by (simp split: prod.splits)
  qed
qed

lemma transformLoop_valid:
  "\<forall>k \<in> set keys. startsWith_dollar k
    \<Longrightarrow> transformLoop obj keys st \<noteq> Inl (InvalidParameterName bad)"
proof (induction keys arbitrary: st)
  case Nil
  then show ?case by simp
next
  case (Cons key keys)
  obtain q out where st: "st = (q, out)" by (cases st)
  from Cons.prems have k: "startsWith_dollar key" and ks: "\<forall>k \<in> set keys. startsWith_dollar k"
    by simp_all
  have ih: "\<And>st'. transformLoop obj keys st' \<noteq> Inl (InvalidParameterName bad)"
    using Cons.IH [OF ks] .
  show ?case
    using k ih st by (simp split: option.splits prod.splits)
qed

lemma set_Object_keys: "set (Object_keys obj) = set (map fst obj)"
  by (auto simp: Object_keys_def Let_def)

lemma set_sortKeys: "set (sortKeys ks) = set ks"
  by (simp add: sortKeys_def)

lemma array_index_dollar: "startsWith_dollar k \<Longrightarrow> array_index k = None"
  by (cases k) (auto simp: startsWith_dollar_def array_index_def is_digit_def)

lemma Object_keys_dollar:
  "\<forall>k \<in> set (map fst obj). startsWith_dollar k \<Longrightarrow> Object_keys obj = map fst obj"
  by (rule Object_keys_no_index) (simp add: array_index_dollar)

lemma query_functions_rejected:
  assumes "transformQuery q ps = Inl err"
  shows "queryMultiple db q ps (Some c) log = (Inl err, log)"
    and "query db q ps (Some c) log = (Inl err, log)"
    and "querySingle db q ps (Some c) log = (Inl err, log)"
    and "queryScalar db q ps (Some c) log = (Inl err, log)"
    and "connect db = Inl e \<Longrightarrow> queryMultiple db q ps None log = (Inl (DbError e), log)"
    and "connect db = Inl e \<Longrightarrow> query db q ps None log = (Inl (DbError e), log)"
    and "connect db = Inl e \<Longrightarrow> querySingle db q ps None log = (Inl (DbError e), log)"
    and "connect db = Inl e \<Longrightarrow> queryScalar db q ps None log = (Inl (DbError e), log)"
    and "connect db = Inr c' \<Longrightarrow>
      queryMultiple db q ps None log = (Inl err, log @ [Acquired c', Released c'])"
    and "connect db = Inr c' \<Longrightarrow> query db q ps None log = (Inl err, log @ [Acquired c', Released c'])"
    and "connect db = Inr c' \<Longrightarrow>
      querySingle db q ps None log = (Inl err, log @ [Acquired c', Released c'])"
    and "connect db = Inr c' \<Longrightarrow>
      queryScalar db q ps None log = (Inl err, log @ [Acquired c', Released c'])"
  using assms
  by (simp_all add: queryMultiple_def query_def querySingle_def queryScalar_def tryQuery_def)

lemma query_functions_error_origin:
  assumes "transformQuery q ps \<noteq> Inl (InvalidParameterName name)"
  shows "fst (queryMultiple db q ps client log) \<noteq> Inl (InvalidParameterName name)"
    and "fst (query db q ps client log) \<noteq> Inl (InvalidParameterName name)"
    and "fst (querySingle db q ps client log) \<noteq> Inl (InvalidParameterName name)"
    and "fst (queryScalar db q ps client log) \<noteq> Inl (InvalidParameterName name)"
proof -
  show m: "fst (queryMultiple db q ps client log) \<noteq> Inl (InvalidParameterName name)"
    using assms
    by (auto simp: queryMultiple_def tryQuery_def split: option.splits sum.splits prod.splits)
  then show "fst (query db q ps client log) \<noteq> Inl (InvalidParameterName name)"
    by (auto simp: query_def split: prod.splits sum.splits)
  from m show s: "fst (querySingle db q ps client log) \<noteq> Inl (InvalidParameterName name)"
    by (auto simp: querySingle_def split: prod.splits sum.splits)
  then show "fst (queryScalar db q ps client log) \<noteq> Inl (InvalidParameterName name)"
    by (auto simp: queryScalar_def split: prod.splits sum.splits option.splits)
qed

text \<open>
  Claim C7, amended. Let the keys that are processed before the first key without a
  leading \<open>$\<close> be free of pattern operators other than the dot. If some key does not
  start with \<open>$\<close>, \<open>transformQuery\<close> fails with \<open>InvalidParameterName\<close> for the first
  such key in processing order, and so do \<open>queryMultiple\<close>, \<open>query\<close>,
  \<open>querySingle\<close> and \<open>queryScalar\<close>, before any query is run: at once on a caller's
  client, and after acquiring and then releasing a client when none was given; when that
  acquisition fails, its failure is what the call reports. If every key starts with
  \<open>$\<close>, none of the five functions raises the error.
\<close>

theorem invalid_parameter_name:
  "((\<exists>k \<in> set (map fst obj). \<not> startsWith_dollar k)
      \<and> (\<forall>k \<in> set (takeWhile startsWith_dollar (sortKeys (Object_keys obj))).
            RegExp_new (escapeDollar k) \<noteq> None)
    \<longrightarrow> (\<exists>bad \<in> set (map fst obj). \<not> startsWith_dollar bad
          \<and> find (\<lambda>k. \<not> startsWith_dollar k) (sortKeys (Object_keys obj)) = Some bad
          \<and> transformQuery q (ParamObject obj) = Inl (InvalidParameterName bad)
          \<and> queryMultiple db q (ParamObject obj) (Some c) log = (Inl (InvalidParameterName bad), log)
          \<and> query db q (ParamObject obj) (Some c) log = (Inl (InvalidParameterName bad), log)
          \<and> querySingle db q (ParamObject obj) (Some c) log = (Inl (InvalidParameterName bad), log)
          \<and> queryScalar db q (ParamObject obj) (Some c) log = (Inl (InvalidParameterName bad), log)
          \<and> (case connect db of
                Inl e \<Rightarrow>
                  queryMultiple db q (ParamObject obj) None log = (Inl (DbError e), log)
                  \<and> query db q (ParamObject obj) None log = (Inl (DbError e), log)
                  \<and> querySingle db q (ParamObject obj) None log = (Inl (DbError e), log)
                  \<and> queryScalar db q (ParamObject obj) None log = (Inl (DbError e), log)
              | Inr c' \<Rightarrow>
                  queryMultiple db q (ParamObject obj) None log
                    = (Inl (InvalidParameterName bad), log @ [Acquired c', Released c'])
                  \<and> query db q (ParamObject obj) None log
                    = (Inl (InvalidParameterName bad), log @ [Acquired c', Released c'])
                  \<and> querySingle db q (ParamObject obj) None log
                    = (Inl (InvalidParameterName bad), log @ [Acquired c', Released c'])
                  \<and> queryScalar db q (ParamObject obj) None log
                    = (Inl (InvalidParameterName bad), log @ [Acquired c', Released c']))))
   \<and> ((\<forall>k \<in> set (map fst obj). startsWith_dollar k)
    \<longrightarrow> transformQuery q (ParamObject obj) \<noteq> Inl (InvalidParameterName name)
        \<and> fst (queryMultiple db q (ParamObject obj) client log) \<noteq> Inl (InvalidParameterName name)
        \<and> fst (query db q (ParamObject obj) client log) \<noteq> Inl (InvalidParameterName name)
        \<and> fst (querySingle db q (ParamObject obj) client log) \<noteq> Inl (InvalidParameterName name)
        \<and> fst (queryScalar db q (ParamObject obj) client log) \<noteq> Inl (InvalidParameterName name))"
proof (rule conjI; rule impI)
  assume a: "(\<exists>k \<in> set (map fst obj). \<not> startsWith_dollar k)
      \<and> (\<forall>k \<in> set (takeWhile startsWith_dollar (sortKeys (Object_keys obj))).
            RegExp_new (escapeDollar k) \<noteq> None)"
  let ?keys = "sortKeys (Object_keys obj)"
  let ?ps = "ParamObject obj"
  have s: "set ?keys = set (map fst obj)"
    by (simp add: set_sortKeys set_Object_keys)
  with a have "\<exists>k \<in> set ?keys. \<not> startsWith_dollar k" by simp
  then obtain bad where f: "find (\<lambda>k. \<not> startsWith_dollar k) ?keys = Some bad"
    by (cases "find (\<lambda>k. \<not> startsWith_dollar k) ?keys") (auto simp: find_None_iff)
  then have b: "bad \<in> set ?keys" "\<not> startsWith_dollar bad"
    by (auto simp: find_Some_iff)
  from a have m: "\<forall>k \<in> set (takeWhile startsWith_dollar ?keys). RegExp_new (escapeDollar k) \<noteq> None"
    by simp
  have t: "transformQuery q ?ps = Inl (InvalidParameterName bad)"
    using transformLoop_invalid [OF f m, of obj "(q, [])"] by (simp add: transformQuery_def)
  note r = query_functions_rejected [OF t, of db _ log]
  have given: "queryMultiple db q ?ps (Some c) log = (Inl (InvalidParameterName bad), log)
      \<and> query db q ?ps (Some c) log = (Inl (InvalidParameterName bad), log)
      \<and> querySingle db q ?ps (Some c) log = (Inl (InvalidParameterName bad), log)
      \<and> queryScalar db q ?ps (Some c) log = (Inl (InvalidParameterName bad), log)"
    using r(1-4) by simp
  have own: "case connect db of
                Inl e \<Rightarrow>
                  queryMultiple db q ?ps None log = (Inl (DbError e), log)
                  \<and> query db q ?ps None log = (Inl (DbError e), log)
                  \<and> querySingle db q ?ps None log = (Inl (DbError e), log)
                  \<and> queryScalar db q ?ps None log = (Inl (DbError e), log)
              | Inr c' \<Rightarrow>
                  queryMultiple db q ?ps None log
                    = (Inl (InvalidParameterName bad), log @ [Acquired c', Released c'])
                  \<and> query db q ?ps None log
                    = (Inl (InvalidParameterName bad), log @ [Acquired c', Released c'])
                  \<and> querySingle db q ?ps None log
                    = (Inl (InvalidParameterName bad), log @ [Acquired c', Released c'])
                  \<and> queryScalar db q ?ps None log
                    = (Inl (InvalidParameterName bad), log @ [Acquired c', Released c'])"
  proof (cases "connect db")
    case (Inl e)
    then show ?thesis
      using r(5-8) by simp
  next
    case (Inr c')
    then show ?thesis
      using r(9-12) by simp
  qed
  from b s f t given own
  show "\<exists>bad \<in> set (map fst obj). \<not> startsWith_dollar bad
          \<and> find (\<lambda>k. \<not> startsWith_dollar k) (sortKeys (Object_keys obj)) = Some bad
          \<and> transformQuery q (ParamObject obj) = Inl (InvalidParameterName bad)
          \<and> queryMultiple db q (ParamObject obj) (Some c) log = (Inl (InvalidParameterName bad), log)
          \<and> query db q (ParamObject obj) (Some c) log = (Inl (InvalidParameterName bad), log)
          \<and> querySingle db q (ParamObject obj) (Some c) log = (Inl (InvalidParameterName bad), log)
          \<and> queryScalar db q (ParamObject obj) (Some c) log = (Inl (InvalidParameterName bad), log)
          \<and> (case connect db of
                Inl e \<Rightarrow>
                  queryMultiple db q (ParamObject obj) None log = (Inl (DbError e), log)
                  \<and> query db q (ParamObject obj) None log = (Inl (DbError e), log)
                  \<and> querySingle db q (ParamObject obj) None log = (Inl (DbError e), log)
                  \<and> queryScalar db q (ParamObject obj) None log = (Inl (DbError e), log)
              | Inr c' \<Rightarrow>
                  queryMultiple db q (ParamObject obj) None log
                    = (Inl (InvalidParameterName bad), log @ [Acquired c', Released c'])
                  \<and> query db q (ParamObject obj) None log
                    = (Inl (InvalidParameterName bad), log @ [Acquired c', Released c'])
                  \<and> querySingle db q (ParamObject obj) None log
                    = (Inl (InvalidParameterName bad), log @ [Acquired c', Released c'])
                  \<and> queryScalar db q (ParamObject obj) None log
                    = (Inl (InvalidParameterName bad), log @ [Acquired c', Released c']))"
    by blast
next
  assume a: "\<forall>k \<in> set (map fst obj). startsWith_dollar k"
  let ?keys = "sortKeys (Object_keys obj)"
  have "\<forall>k \<in> set ?keys. startsWith_dollar k"
    using a by (simp add: set_sortKeys set_Object_keys)
  then have "transformLoop obj ?keys (q, []) \<noteq> Inl (InvalidParameterName name)"
    by (rule transformLoop_valid)
  then have t: "transformQuery q (ParamObject obj) \<noteq> Inl (InvalidParameterName name)"
    by (auto simp: transformQuery_def split: sum.splits)
  note o = query_functions_error_origin [OF t, of db client log]
  from t o
  show "transformQuery q (ParamObject obj) \<noteq> Inl (InvalidParameterName name)
        \<and> fst (queryMultiple db q (ParamObject obj) client log) \<noteq> Inl (InvalidParameterName name)
        \<and> fst (query db q (ParamObject obj) client log) \<noteq> Inl (InvalidParameterName name)
        \<and> fst (querySingle db q (ParamObject obj) client log) \<noteq> Inl (InvalidParameterName name)
        \<and> fst (queryScalar db q (ParamObject obj) client log) \<noteq> Inl (InvalidParameterName name)"
    by blast
qed

lemma sortKeys_single: "sortKeys [k] = [k]"
  by (simp add: sortKeys_def)

text \<open>
  Claim C7, as stated: the error is raised before any database interaction by every query
  function. \<open>queryMultiple\<close> connects first: when the pool fails, that failure is
  raised and not \<open>InvalidParameterName\<close>, and otherwise a client has been acquired
  (and released) by the time the error is raised.
\<close>

theorem invalid_parameter_name_after_connect:
  "queryMultiple \<lparr>connect = Inl ''pool exhausted'', run = (\<lambda>c q ps. Inr [])\<rparr>
       ''SELECT * FROM public.users WHERE name = name'' (ParamObject [(''name'', Scalar ''John'')])
       None []
     = (Inl (DbError ''pool exhausted''), [])
   \<and> queryMultiple \<lparr>connect = Inr 3, run = (\<lambda>c q ps. Inr [])\<rparr>
       ''SELECT * FROM public.users WHERE name = name'' (ParamObject [(''name'', Scalar ''John'')])
       None []
     = (Inl (InvalidParameterName ''name''), [Acquired 3, Released 3])"
proof -
  have "Object_keys [(''name'', Scalar ''John'')] = [''name'']"
    by (simp add: Object_keys_def array_index_def is_digit_def)
  then show ?thesis
    by (simp add: queryMultiple_def tryQuery_def transformQuery_def sortKeys_single
        startsWith_dollar_def)
qed

theorem invalid_parameter_name_witness:
  "transformQuery ''SELECT * FROM public.users WHERE name = name''
       (ParamObject [(''name'', Scalar ''John'')]) = Inl (InvalidParameterName ''name'')
   \<and> queryScalar \<lparr>connect = Inr 3, run = (\<lambda>c q ps. Inr [])\<rparr>
       ''SELECT * FROM public.users WHERE name = name'' (ParamObject [(''name'', Scalar ''John'')])
       None []
     = (Inl (InvalidParameterName ''name''), [Acquired 3, Released 3])
   \<and> fst (query \<lparr>connect = Inr 3, run = (\<lambda>c q ps. Inr [])\<rparr> ''SELECT 1''
       (ParamObject [(''$name'', Scalar ''John'')]) None [])
       \<noteq> Inl (InvalidParameterName ''$name'')"
proof -
  let ?db = "\<lparr>connect = Inr 3, run = (\<lambda>c q ps. Inr [])\<rparr> :: string db"
  let ?q = "''SELECT * FROM public.users WHERE name = name''"
  let ?obj = "[(''name'', Scalar ''John'')]"
  have k: "sortKeys (Object_keys ?obj) = [''name'']"
    by (simp add: Object_keys_def array_index_def is_digit_def sortKeys_single)
  have h: "(\<exists>k \<in> set (map fst ?obj). \<not> startsWith_dollar k)
      \<and> (\<forall>k \<in> set (takeWhile startsWith_dollar (sortKeys (Object_keys ?obj))).
            RegExp_new (escapeDollar k) \<noteq> None)"
    unfolding k by (simp add: startsWith_dollar_def)
  have g: "\<forall>k \<in> set (map fst [(''$name'', Scalar ''John'')]). startsWith_dollar k"
    by (simp add: startsWith_dollar_def)
  have 1: "transformQuery ?q (ParamObject ?obj) = Inl (InvalidParameterName ''name'')
      \<and> queryScalar ?db ?q (ParamObject ?obj) None [] = (Inl (InvalidParameterName ''name''), [Acquired 3, Released 3])"
    using invalid_parameter_name [where obj = ?obj and q = ?q and db = ?db and c = 3
        and log = "[]" and client = None and name = "''name''"] h
    by auto
  have 2: "fst (query ?db ''SELECT 1'' (ParamObject [(''$name'', Scalar ''John'')]) None [])
      \<noteq> Inl (InvalidParameterName ''$name'')"
    using invalid_parameter_name [where obj = "[(''$name'', Scalar ''John'')]" and q = "''SELECT 1''"
        and db = ?db and c = 3 and log = "[]" and client = None and name = "''$name''"] g
    by blast
  from 1 2 show ?thesis by blast
qed

subsection \<open>Keys as patterns, and the loop body on literal keys\<close>

lemma show_nat_1: "show_nat (Suc 0) = ''1''"
  by (simp add: show_nat.simps digit_char_def)

text \<open>
  Claim C3. The key is compiled as a pattern after escaping its dollar signs only. A key
  with a dot is found where the query has another character in the dot's place: the
  literal text of the key does not occur in the query, and yet the placeholder is
  rewritten and the value is passed.
\<close>

theorem dot_key_matches_other_text:
  "transformQuery ''x = $a_b'' (ParamObject [(''$a.b'', Scalar v)]) = Inr (''x = $1'', Some [Scalar v])
   \<and> \<not> occurs ''$a.b'' ''x = $a_b''"
proof -
  have k: "sortKeys (Object_keys [(''$a.b'', Scalar v)]) = [''$a.b'']"
    by (simp add: Object_keys_def array_index_def is_digit_def sortKeys_single)
  have r: "RegExp_new (escapeDollar ''$a.b'') = Some [Lit CHR ''$'', Lit CHR ''a'', AnyChar, Lit CHR ''b'']"
    by (simp add: escapeDollar_def rx_special_def backslash_def)
  show ?thesis
    by (simp add: transformQuery_def k r startsWith_dollar_def js_get_def show_nat_1)
qed

lemma spread_group:
  "spread items (out, acc) =
     (out @ items,
      if items = [] then acc
      else acc @ (if acc \<noteq> [] then '', '' else []) @ placeholder_group (length out) (length items))"
proof (induction items arbitrary: out acc)
  case Nil
  then show ?case by simp
next
  case (Cons item items)
  show ?case
    by (simp add: Cons.IH placeholder_def)
qed

lemma transformLoop_step_array:
  assumes "startsWith_dollar key" and "literal_key key" and "occurs key q"
    and "js_get obj key = Array items"
  shows "transformLoop obj (key # keys) (q, out)
     = transformLoop obj keys
         (replace_all key (placeholder_group (length out) (length items)) q, out @ items)"
proof -
  have ne: "key \<noteq> []"
    using assms(1) by (auto simp: startsWith_dollar_def)
  have rx: "RegExp_new (escapeDollar key) = Some (map Lit key)"
    using assms(2) by (rule RegExp_new_literal)
  show ?thesis
    using assms(1,3,4) ne
    by (simp add: rx rx_test_literal rx_replace_literal spread_group)
qed

lemma transformLoop_step_scalar:
  assumes "startsWith_dollar key" and "literal_key key" and "occurs key q"
    and "\<not> isArray (js_get obj key)"
  shows "transformLoop obj (key # keys) (q, out)
     = transformLoop obj keys
         (replace_all key (placeholder (length out + 1)) q, out @ [js_get obj key])"
proof -
  have ne: "key \<noteq> []"
    using assms(1) by (auto simp: startsWith_dollar_def)
  have rx: "RegExp_new (escapeDollar key) = Some (map Lit key)"
    using assms(2) by (rule RegExp_new_literal)
  show ?thesis
    using assms(1,3,4) ne
    by (simp add: rx rx_test_literal rx_replace_literal placeholder_def)
qed

lemma transformLoop_step_absent:
  assumes "startsWith_dollar key" and "literal_key key" and "\<not> occurs key q"
  shows "transformLoop obj (key # keys) (q, out) = transformLoop obj keys (q, out)"
proof -
  have rx: "RegExp_new (escapeDollar key) = Some (map Lit key)"
    using assms(2) by (rule RegExp_new_literal)
  show ?thesis
    using assms(1,3) by (simp add: rx rx_test_literal)
qed

lemma transformLoop_succeeds:
  "\<forall>k \<in> set keys. startsWith_dollar k \<and> RegExp_new (escapeDollar k) \<noteq> None
    \<Longrightarrow> \<exists>q' out'. transformLoop obj keys st = Inr (q', out')"
proof (induction keys arbitrary: st)
  case Nil
  then show ?case by (cases st) simp
next
  case (Cons key keys)
  obtain q out where st: "st = (q, out)" by (cases st)
  from Cons.prems obtain rx where k: "startsWith_dollar key" and rx: "RegExp_new (escapeDollar key) = Some rx"
    by auto
  from Cons.prems have ks: "\<forall>k \<in> set keys. startsWith_dollar k \<and> RegExp_new (escapeDollar k) \<noteq> None"
    by simp
  have ih: "\<And>st'. \<exists>q' out'. transformLoop obj keys st' = Inr (q', out')"
    using Cons.IH [OF ks] .
  show ?case
    using k rx ih st by (simp split: prod.splits)
qed

lemma replace_all_skip:
  "CHR ''$'' \<notin> set u \<Longrightarrow> replace_all (CHR ''$'' # body) r (u @ v) = u @ replace_all (CHR ''$'' # body) r v"
  by (induction u) auto

lemma replace_all_hit:
  "replace_all (c # body) r ((c # body) @ v) = r @ replace_all (c # body) r v"
  by simp

lemma replace_all_occurrences:
  "CHR ''$'' \<notin> set v \<Longrightarrow> \<forall>u \<in> set us. CHR ''$'' \<notin> set u
    \<Longrightarrow> replace_all (CHR ''$'' # body) r (concat (map (\<lambda>u. u @ CHR ''$'' # body) us) @ v)
        = concat (map (\<lambda>u. u @ r) us) @ v"
proof (induction us)
  case Nil
  then show ?case
    using replace_all_skip [of v body r "[]"] by simp
next
  case (Cons u us)
  then have u: "CHR ''$'' \<notin> set u" and ih: "replace_all (CHR ''$'' # body) r (concat (map (\<lambda>u. u @ CHR ''$'' # body) us) @ v)
        = concat (map (\<lambda>u. u @ r) us) @ v"
    by simp_all
  have "replace_all (CHR ''$'' # body) r (concat (map (\<lambda>u. u @ CHR ''$'' # body) (u # us)) @ v)
      = replace_all (CHR ''$'' # body) r (u @ ((CHR ''$'' # body) @ (concat (map (\<lambda>u. u @ CHR ''$'' # body) us) @ v)))"
    by simp
  also have "\<dots> = u @ replace_all (CHR ''$'' # body) r ((CHR ''$'' # body) @ (concat (map (\<lambda>u. u @ CHR ''$'' # body) us) @ v))"
    using u by (rule replace_all_skip)
  also have "\<dots> = u @ r @ replace_all (CHR ''$'' # body) r (concat (map (\<lambda>u. u @ CHR ''$'' # body) us) @ v)"
    by (simp only: replace_all_hit)
  finally show ?case
    using ih by simp
qed


subsection \<open>Characters and decimal numbers\<close>

lemma ident_not_dollar: "ident_char c \<Longrightarrow> c \<noteq> CHR ''$''"
  by (auto simp: ident_char_def)

lemma digit_ident: "is_digit c \<Longrightarrow> ident_char c"
  by (auto simp: ident_char_def is_digit_def)

lemma digit_not_dollar: "is_digit c \<Longrightarrow> c \<noteq> CHR ''$''"
  by (auto simp: is_digit_def)

lemma ident_not_special: "ident_char c \<Longrightarrow> \<not> rx_special c"
  by (auto simp: ident_char_def rx_special_def backslash_def)

lemma dollar_not_special: "\<not> rx_special (CHR ''$'')"
  by (simp add: rx_special_def backslash_def)

lemma less_10_cases:
  "d < 10 \<Longrightarrow> d = 0 \<or> d = 1 \<or> d = 2 \<or> d = 3 \<or> d = 4 \<or> d = 5 \<or> d = 6 \<or> d = 7 \<or> d = 8 \<or> d = (9::nat)"
  by arith

lemma digit_char_digit: "d < 10 \<Longrightarrow> is_digit (digit_char d)"
  using less_10_cases [of d] by (auto simp: digit_char_def is_digit_def)

lemma digit_val_digit_char: "d < 10 \<Longrightarrow> digit_val (digit_char d) = d"
  using less_10_cases [of d] by (auto simp: digit_char_def digit_val_def)

lemma show_nat_digits: "list_all is_digit (show_nat n)"
proof (induction n rule: show_nat.induct)
  case (1 n)
  show ?case
  proof (cases "n < 10")
    case True
    then show ?thesis
      by (subst show_nat.simps) (simp add: digit_char_digit)
  next
    case False
    then have "list_all is_digit (show_nat (n div 10))"
      using 1 by simp
    then show ?thesis
      using False by (subst show_nat.simps) (simp add: digit_char_digit)
  qed
qed

lemma show_nat_nonempty: "show_nat n \<noteq> []"
  by (subst show_nat.simps) simp

lemma digits_value_snoc: "digits_value (s @ [c]) = 10 * digits_value s + digit_val c"
  by (simp add: digits_value_def)

lemma digits_value_show_nat: "digits_value (show_nat n) = n"
proof (induction n rule: show_nat.induct)
  case (1 n)
  show ?case
  proof (cases "n < 10")
    case True
    then show ?thesis
      by (subst show_nat.simps) (simp add: digits_value_def digit_val_digit_char)
  next
    case False
    then have "digits_value (show_nat (n div 10)) = n div 10"
      using 1 by simp
    then show ?thesis
      using False
      by (subst show_nat.simps) (simp add: digits_value_snoc digit_val_digit_char)
  qed
qed

subsection \<open>Placeholders of a text\<close>

lemma nonident_nondigit: "nonident_start s \<Longrightarrow> nondigit_start s"
  by (auto simp: nonident_start_def nondigit_start_def digit_ident)

lemma takeWhile_digits:
  "list_all is_digit ds \<Longrightarrow> nondigit_start s \<Longrightarrow> takeWhile is_digit (ds @ s) = ds"
  by (cases s) (auto simp: nondigit_start_def list_all_iff)

lemma dropWhile_digits:
  "list_all is_digit ds \<Longrightarrow> nondigit_start s \<Longrightarrow> dropWhile is_digit (ds @ s) = s"
  by (cases s) (auto simp: nondigit_start_def list_all_iff)

lemma placeholders_no_dollar: "CHR ''$'' \<notin> set s \<Longrightarrow> placeholders s = []"
  by (induction s) auto

lemma placeholders_skip:
  "CHR ''$'' \<notin> set u \<Longrightarrow> placeholders (u @ s) = placeholders s"
  by (induction u) auto

lemma placeholders_placeholder:
  "nondigit_start s \<Longrightarrow> placeholders (placeholder i @ s) = i # placeholders s"
  by (simp add: placeholder_def takeWhile_digits dropWhile_digits show_nat_digits
      show_nat_nonempty digits_value_show_nat)

lemma nondigit_start_comma: "nondigit_start ('', '' @ s)"
  by (simp add: nondigit_start_def is_digit_def)

lemma placeholders_group:
  "nondigit_start s \<Longrightarrow> placeholders (placeholder_group n m @ s) = [n + 1 ..< n + m + 1] @ placeholders s"
proof (induction m arbitrary: n)
  case 0
  then show ?case by simp
next
  case (Suc m)
  show ?case
  proof (cases "m = 0")
    case True
    then show ?thesis
      using Suc.prems by (simp add: placeholders_placeholder)
  next
    case False
    have "placeholders (placeholder_group n (Suc m) @ s)
        = placeholders (placeholder (n + 1) @ ('', '' @ placeholder_group (n + 1) m @ s))"
      using False by simp
    also have "\<dots> = (n + 1) # placeholders ('', '' @ placeholder_group (n + 1) m @ s)"
      by (rule placeholders_placeholder) (rule nondigit_start_comma)
    also have "placeholders ('', '' @ placeholder_group (n + 1) m @ s)
        = placeholders (placeholder_group (n + 1) m @ s)"
      by (rule placeholders_skip) simp
    also have "\<dots> = [n + 1 + 1 ..< n + 1 + m + 1] @ placeholders s"
      using Suc.prems by (rule Suc.IH)
    finally show ?thesis
      by (simp add: upt_conv_Cons)
  qed
qed

lemma placeholders_group_alone: "placeholders (placeholder_group n m) = [n + 1 ..< n + m + 1]"
  using placeholders_group [of "[]" n m] by (simp add: nondigit_start_def)

lemma placeholder_as_group: "placeholder (n + 1) = placeholder_group n 1"
  by simp

lemma dollar_digit_no_dollar: "CHR ''$'' \<notin> set u \<Longrightarrow> dollar_digit u"
  by (induction u) auto

lemma dollar_digit_append: "dollar_digit u \<Longrightarrow> dollar_digit v \<Longrightarrow> dollar_digit (u @ v)"
  by (induction u) auto

lemma dollar_digit_placeholder: "dollar_digit (placeholder i)"
proof -
  have "list_all is_digit (show_nat i)" by (rule show_nat_digits)
  then have "CHR ''$'' \<notin> set (show_nat i)"
    by (auto simp: list_all_iff dest: digit_not_dollar)
  then have "dollar_digit (show_nat i)" by (rule dollar_digit_no_dollar)
  moreover have "is_digit (hd (show_nat i))"
    using show_nat_digits [of i] show_nat_nonempty [of i]
    by (cases "show_nat i") (auto simp: list_all_iff)
  ultimately show ?thesis
    by (simp add: placeholder_def show_nat_nonempty)
qed

lemma dollar_digit_group: "dollar_digit (placeholder_group n m)"
proof (induction m arbitrary: n)
  case 0
  then show ?case by simp
next
  case (Suc m)
  have "dollar_digit ('', '' @ placeholder_group (n + 1) m)"
    by (rule dollar_digit_append) (simp_all add: Suc.IH)
  then show ?case
    by (auto intro: dollar_digit_append dollar_digit_placeholder)
qed

lemma group_start: "placeholder_group n m = [] \<or> hd (placeholder_group n m) = CHR ''$''"
  by (cases m) (simp_all add: placeholder_def)

lemma group_text_dollar_digit: "group_text u \<Longrightarrow> dollar_digit u"
  by (auto simp: group_text_def dollar_digit_group)

lemma group_text_start: "group_text u \<Longrightarrow> u = [] \<or> hd u = CHR ''$''"
  using group_start by (auto simp: group_text_def)

lemma group_text_group: "group_text (placeholder_group n m)"
  by (auto simp: group_text_def)

lemma group_text_placeholder: "group_text (placeholder (n + 1))"
  unfolding group_text_def using placeholder_as_group by blast

subsection \<open>Tokens and substitution\<close>

lemma tokens_dropWhile: "tokens (dropWhile ident_char cs) = tokens cs"
  by (induction cs) (auto dest: ident_not_dollar)

lemma subst_id: "subst (\<lambda>t. t) q = q"
  by (induction "\<lambda>t::string. t" q rule: subst.induct) simp_all

lemma named_keyD:
  "named_key k \<Longrightarrow> \<exists>body. k = CHR ''$'' # body \<and> body \<noteq> [] \<and> list_all ident_char body
      \<and> \<not> is_digit (hd body)"
  by (cases k) (auto simp: named_key_def)

lemma named_key_startsWith: "named_key k \<Longrightarrow> startsWith_dollar k"
  by (cases k) (auto simp: named_key_def startsWith_dollar_def)

lemma named_key_literal: "named_key k \<Longrightarrow> literal_key k"
  by (cases k) (auto simp: named_key_def literal_key_def list_all_iff
      dollar_not_special ident_not_special)

lemma named_key_placeholders: "named_key k \<Longrightarrow> placeholders k = []"
proof -
  assume "named_key k"
  then obtain body where k: "k = CHR ''$'' # body" and ne: "body \<noteq> []"
    and id: "list_all ident_char body" and nd: "\<not> is_digit (hd body)"
    using named_keyD by blast
  have t: "takeWhile is_digit body = []"
    using ne nd by (cases body) auto
  have "CHR ''$'' \<notin> set body"
    using id by (auto simp: list_all_iff dest: ident_not_dollar)
  then have "placeholders body = []"
    by (rule placeholders_no_dollar)
  then show ?thesis
    using k t by simp
qed

lemma nonident_start_dropWhile: "nonident_start (dropWhile ident_char cs)"
  using hd_dropWhile [of ident_char cs] by (auto simp: nonident_start_def)

lemma subst_start:
  "\<forall>t \<in> set (tokens s). f t = [] \<or> hd (f t) = CHR ''$'' \<Longrightarrow> nonident_start s
    \<Longrightarrow> nonident_start (subst f s)"
proof (induction f s rule: subst.induct)
  case (1 f)
  then show ?case by (simp add: nonident_start_def)
next
  case (2 f c cs)
  show ?case
  proof (cases "c = CHR ''$''")
    case False
    then show ?thesis
      using "2.prems"(2) by (simp add: nonident_start_def)
  next
    case True
    let ?t = "c # takeWhile ident_char cs"
    let ?rest = "dropWhile ident_char cs"
    have ft: "f ?t = [] \<or> hd (f ?t) = CHR ''$''"
      using "2.prems"(1) True by simp
    have toks: "\<forall>t \<in> set (tokens ?rest). f t = [] \<or> hd (f t) = CHR ''$''"
      using "2.prems"(1) True by (simp add: tokens_dropWhile)
    have ih: "nonident_start (subst f ?rest)"
      using "2.IH"(1) [OF True toks nonident_start_dropWhile] .
    show ?thesis
    proof (cases "f ?t = []")
      case True
      then show ?thesis
        using \<open>c = CHR ''$''\<close> ih by simp
    next
      case False
      then have "hd (f ?t @ subst f ?rest) = CHR ''$''"
        using ft by simp
      then show ?thesis
        using \<open>c = CHR ''$''\<close> False by (simp add: nonident_start_def ident_char_def)
    qed
  qed
qed

subsection \<open>One key against a partly rewritten query\<close>

lemma replace_all_nomatch:
  "\<not> prefix k (c # s) \<Longrightarrow> replace_all k r (c # s) = c # replace_all k r s"
  by simp

lemma replace_all_dollar_digit:
  "dollar_digit u \<Longrightarrow> body \<noteq> [] \<Longrightarrow> \<not> is_digit (hd body)
    \<Longrightarrow> replace_all (CHR ''$'' # body) r (u @ v) = u @ replace_all (CHR ''$'' # body) r v"
proof (induction u)
  case Nil
  then show ?case by simp
next
  case (Cons c u)
  have "\<not> prefix (CHR ''$'' # body) (c # u @ v)"
  proof (cases "c = CHR ''$''")
    case False
    then show ?thesis by simp
  next
    case True
    with Cons.prems(1) obtain d us where u: "u = d # us" and d: "is_digit d"
      by (cases u) auto
    from Cons.prems(2) obtain b bs where b: "body = b # bs"
      by (cases body) auto
    from Cons.prems(3) b have "\<not> is_digit b" by simp
    with d have "b \<noteq> d" by auto
    then show ?thesis
      using u b by simp
  qed
  moreover have "replace_all (CHR ''$'' # body) r (u @ v) = u @ replace_all (CHR ''$'' # body) r v"
    using Cons by simp
  ultimately show ?case by auto
qed

lemma occurs_skip:
  "CHR ''$'' \<notin> set u \<Longrightarrow> occurs (CHR ''$'' # body) (u @ v) = occurs (CHR ''$'' # body) v"
  by (induction u) auto

lemma occurs_dollar_digit:
  "dollar_digit u \<Longrightarrow> body \<noteq> [] \<Longrightarrow> \<not> is_digit (hd body)
    \<Longrightarrow> occurs (CHR ''$'' # body) (u @ v) = occurs (CHR ''$'' # body) v"
proof (induction u)
  case Nil
  then show ?case by simp
next
  case (Cons c u)
  have "\<not> prefix (CHR ''$'' # body) (c # u @ v)"
  proof (cases "c = CHR ''$''")
    case False
    then show ?thesis by simp
  next
    case True
    with Cons.prems(1) obtain d us where u: "u = d # us" and d: "is_digit d"
      by (cases u) auto
    from Cons.prems(2) obtain b bs where b: "body = b # bs"
      by (cases body) auto
    from Cons.prems(3) b have "\<not> is_digit b" by simp
    with d have "b \<noteq> d" by auto
    then show ?thesis
      using u b by simp
  qed
  moreover have "occurs (CHR ''$'' # body) (u @ v) = occurs (CHR ''$'' # body) v"
    using Cons by simp
  ultimately show ?case by auto
qed

lemma ready_tail: "ready f k (c # cs) \<Longrightarrow> ready f k cs"
  by (auto simp: ready_def)

lemma ready_rest: "ready f k (CHR ''$'' # cs) \<Longrightarrow> ready f k (dropWhile ident_char cs)"
  by (auto simp: ready_def tokens_dropWhile)

lemma token_start: "t \<in> set (tokens q) \<Longrightarrow> t \<noteq> [] \<and> hd t = CHR ''$''"
  by (induction q) (auto split: if_splits)

lemma ready_start:
  "ready f k q \<Longrightarrow> \<forall>t \<in> set (tokens q). f t = [] \<or> hd (f t) = CHR ''$''"
proof
  fix t
  assume r: "ready f k q" and t: "t \<in> set (tokens q)"
  then consider "f t = t" | "group_text (f t)"
    by (auto simp: ready_def)
  then show "f t = [] \<or> hd (f t) = CHR ''$''"
  proof cases
    case 1
    then show ?thesis
      using token_start [OF t] by simp
  next
    case 2
    then show ?thesis by (rule group_text_start)
  qed
qed

lemma ready_subst_start: "ready f k q \<Longrightarrow> nonident_start (subst f (dropWhile ident_char q))"
proof -
  assume r: "ready f k q"
  have "\<forall>t \<in> set (tokens (dropWhile ident_char q)). f t = [] \<or> hd (f t) = CHR ''$''"
    using ready_start [OF r] by (simp add: tokens_dropWhile)
  then show ?thesis
    using nonident_start_dropWhile by (rule subst_start)
qed

lemma token_not_key:
  assumes k: "k = CHR ''$'' # body" and id: "list_all ident_char body"
    and t: "\<not> prefix k (CHR ''$'' # tb)" and X: "nonident_start X"
  shows "\<not> prefix k (CHR ''$'' # tb @ X)"
proof
  assume "prefix k (CHR ''$'' # tb @ X)"
  then have p: "prefix body (tb @ X)"
    using k by simp
  have nt: "\<not> prefix body tb"
    using t k by simp
  have "prefix tb (tb @ X)" by simp
  with p have "prefix body tb \<or> prefix tb body"
    by (rule prefix_same_cases)
  then have "prefix tb body"
    using nt by blast
  then obtain w where w: "body = tb @ w"
    by (auto simp: prefix_def)
  with nt have wn: "w \<noteq> []" by auto
  from p w have "prefix w X" by simp
  then obtain y where "X = w @ y"
    by (auto simp: prefix_def)
  with wn have "X \<noteq> []" and "hd X = hd w" by auto
  moreover have "ident_char (hd w)"
    using id w wn by (cases w) (auto simp: list_all_iff)
  ultimately show False
    using X by (simp add: nonident_start_def)
qed

lemma replace_all_subst:
  assumes nk: "named_key k"
  shows "ready f k q \<Longrightarrow> replace_all k r (subst f q) = subst (f(k := r)) q"
proof (induction f q rule: subst.induct)
  case (1 f)
  then show ?case by simp
next
  case (2 f c cs)
  obtain body where k: "k = CHR ''$'' # body" and ne: "body \<noteq> []"
    and id: "list_all ident_char body" and nd: "\<not> is_digit (hd body)"
    using named_keyD [OF nk] by blast
  show ?case
  proof (cases "c = CHR ''$''")
    case False
    have ih: "replace_all k r (subst f cs) = subst (f(k := r)) cs"
      using "2.IH"(2) [OF False ready_tail [OF "2.prems"]] .
    have "\<not> prefix k (c # subst f cs)"
      using False k by simp
    then have step: "replace_all k r (c # subst f cs) = c # replace_all k r (subst f cs)"
      by (rule replace_all_nomatch)
    have l: "subst f (c # cs) = c # subst f cs"
      using False by simp
    have rh: "subst (f(k := r)) (c # cs) = c # subst (f(k := r)) cs"
      using False by simp
    show ?thesis
      by (simp only: l rh step ih)
  next
    case True
    let ?tb = "takeWhile ident_char cs"
    let ?t = "CHR ''$'' # ?tb"
    let ?rest = "dropWhile ident_char cs"
    let ?X = "subst f ?rest"
    have rd: "ready f k (CHR ''$'' # cs)"
      using "2.prems" True by simp
    have ih: "replace_all k r ?X = subst (f(k := r)) ?rest"
      using "2.IH"(1) [OF True ready_rest [OF rd]] .
    have X: "nonident_start ?X"
      using ready_tail [OF rd] by (rule ready_subst_start)
    have l: "subst f (c # cs) = f ?t @ ?X"
      using True by simp
    have rh: "subst (f(k := r)) (c # cs) = (f(k := r)) ?t @ subst (f(k := r)) ?rest"
      using True by simp
    have "?t \<in> set (tokens (CHR ''$'' # cs))" by simp
    then consider (pend) "f ?t = ?t" "?t = k \<or> \<not> prefix k ?t"
      | (given) "?t \<noteq> k" "group_text (f ?t)"
      using rd unfolding ready_def by blast
    then show ?thesis
    proof cases
      case pend
      show ?thesis
      proof (cases "?t = k")
        case True
        have hit: "replace_all k r (k @ ?X) = r @ replace_all k r ?X"
          unfolding k by (rule replace_all_hit)
        have u: "(f(k := r)) ?t = r"
          using True by simp
        have "replace_all k r (subst f (c # cs)) = replace_all k r (k @ ?X)"
          using l pend(1) True by simp
        also have "\<dots> = r @ subst (f(k := r)) ?rest"
          by (simp only: hit ih)
        also have "\<dots> = subst (f(k := r)) (c # cs)"
          by (simp only: rh u)
        finally show ?thesis .
      next
        case False
        have "\<not> prefix k ?t"
          using False pend(2) by blast
        with k id have np: "\<not> prefix k (CHR ''$'' # ?tb @ ?X)"
          using X by (rule token_not_key)
        have nd: "CHR ''$'' \<notin> set ?tb"
          by (auto dest: set_takeWhileD ident_not_dollar)
        have s1: "replace_all k r (CHR ''$'' # ?tb @ ?X) = CHR ''$'' # replace_all k r (?tb @ ?X)"
          using np by simp
        have s2: "replace_all k r (?tb @ ?X) = ?tb @ replace_all k r ?X"
          unfolding k using nd by (rule replace_all_skip)
        have u: "(f(k := r)) ?t = ?t"
          using False pend(1) by simp
        have "replace_all k r (subst f (c # cs)) = replace_all k r (?t @ ?X)"
          using l pend(1) by simp
        also have "\<dots> = ?t @ subst (f(k := r)) ?rest"
          by (simp only: s1 s2 ih append_Cons)
        also have "\<dots> = subst (f(k := r)) (c # cs)"
          by (simp only: rh u)
        finally show ?thesis .
      qed
    next
      case given
      have s1: "replace_all k r (f ?t @ ?X) = f ?t @ replace_all k r ?X"
        unfolding k using group_text_dollar_digit [OF given(2)] ne nd
        by (rule replace_all_dollar_digit)
      have u: "(f(k := r)) ?t = f ?t"
        using given(1) by simp
      have "replace_all k r (subst f (c # cs)) = f ?t @ subst (f(k := r)) ?rest"
        by (simp only: l s1 ih)
      also have "\<dots> = subst (f(k := r)) (c # cs)"
        by (simp only: rh u)
      finally show ?thesis .
    qed
  qed
qed

lemma occurs_subst:
  assumes nk: "named_key k"
  shows "ready f k q \<Longrightarrow> occurs k (subst f q) = (k \<in> set (tokens q))"
proof (induction f q rule: subst.induct)
  case (1 f)
  then show ?case
    using named_keyD [OF nk] by auto
next
  case (2 f c cs)
  obtain body where k: "k = CHR ''$'' # body" and ne: "body \<noteq> []"
    and id: "list_all ident_char body" and nd: "\<not> is_digit (hd body)"
    using named_keyD [OF nk] by blast
  show ?case
  proof (cases "c = CHR ''$''")
    case False
    have ih: "occurs k (subst f cs) = (k \<in> set (tokens cs))"
      using "2.IH"(2) [OF False ready_tail [OF "2.prems"]] .
    have "\<not> prefix k (c # subst f cs)"
      using False k by simp
    then have "occurs k (c # subst f cs) = occurs k (subst f cs)"
      by simp
    then show ?thesis
      using False ih by simp
  next
    case True
    let ?tb = "takeWhile ident_char cs"
    let ?t = "CHR ''$'' # ?tb"
    let ?rest = "dropWhile ident_char cs"
    let ?X = "subst f ?rest"
    have rd: "ready f k (CHR ''$'' # cs)"
      using "2.prems" True by simp
    have ih: "occurs k ?X = (k \<in> set (tokens cs))"
      using "2.IH"(1) [OF True ready_rest [OF rd]] by (simp add: tokens_dropWhile)
    have X: "nonident_start ?X"
      using ready_tail [OF rd] by (rule ready_subst_start)
    have l: "subst f (c # cs) = f ?t @ ?X"
      using True by simp
    have tk: "(k \<in> set (tokens (c # cs))) = (k = ?t \<or> k \<in> set (tokens cs))"
      using True by auto
    have "?t \<in> set (tokens (CHR ''$'' # cs))" by simp
    then consider (pend) "f ?t = ?t" "?t = k \<or> \<not> prefix k ?t"
      | (given) "?t \<noteq> k" "group_text (f ?t)"
      using rd unfolding ready_def by blast
    then show ?thesis
    proof cases
      case pend
      show ?thesis
      proof (cases "?t = k")
        case True
        have "occurs k (k @ ?X)"
          unfolding k by simp
        then show ?thesis
          using True pend(1) l tk by simp
      next
        case False
        have "\<not> prefix k ?t"
          using False pend(2) by blast
        with k id have np: "\<not> prefix k (CHR ''$'' # ?tb @ ?X)"
          using X by (rule token_not_key)
        have nd: "CHR ''$'' \<notin> set ?tb"
          by (auto dest: set_takeWhileD ident_not_dollar)
        have "occurs k (?t @ ?X) = occurs k (?tb @ ?X)"
          using np by simp
        also have "occurs k (?tb @ ?X) = occurs k ?X"
          unfolding k using nd by (rule occurs_skip)
        finally show ?thesis
          using False pend(1) ih l tk by auto
      qed
    next
      case given
      have "occurs k (f ?t @ ?X) = occurs k ?X"
        unfolding k using group_text_dollar_digit [OF given(2)] ne nd
        by (rule occurs_dollar_digit)
      then show ?thesis
        using given(1) ih l tk by auto
    qed
  qed
qed

subsection \<open>The loop as a substitution by tokens\<close>

lemma sorted_sortKeys: "sorted_wrt (\<lambda>a b. length b \<le> length a) (sortKeys ks)"
proof -
  have "sorted (map (\<lambda>k. - int (length k)) (sortKeys ks))"
    unfolding sortKeys_def by (rule sorted_sort_key)
  then show ?thesis
    by (simp add: sorted_map)
qed

lemma distinct_sortKeys: "distinct (sortKeys ks) = distinct ks"
  by (simp add: sortKeys_def)

lemma length_sortKeys: "length (sortKeys ks) = length ks"
  by (simp add: sortKeys_def)

lemma pending_ready:
  assumes "pending f (k # keys) q" and "sorted_wrt (\<lambda>a b. length b \<le> length a) (k # keys)"
  shows "ready f k q"
  unfolding ready_def
proof
  fix t
  assume "t \<in> set (tokens q)"
  with assms(1) consider "f t = t" "t \<in> set (k # keys)"
    | "f t = t" "\<forall>x \<in> set (k # keys). \<not> prefix x t"
    | "t \<notin> set (k # keys)" "group_text (f t)"
    unfolding pending_def by blast
  then show "(f t = t \<and> (t = k \<or> \<not> prefix k t)) \<or> (t \<noteq> k \<and> group_text (f t))"
  proof cases
    case 1
    have "t = k \<or> \<not> prefix k t"
    proof (cases "t = k")
      case False
      then have "length t \<le> length k"
        using 1(2) assms(2) by auto
      then show ?thesis
        using False by (auto simp: prefix_def)
    qed simp
    then show ?thesis
      using 1(1) by blast
  next
    case 2
    then show ?thesis by auto
  next
    case 3
    then show ?thesis by auto
  qed
qed

lemma pending_update:
  assumes "pending f (k # keys) q" and "k \<notin> set keys" and "group_text r"
  shows "pending (f(k := r)) keys q"
  unfolding pending_def
proof
  fix t
  assume t: "t \<in> set (tokens q)"
  show "((f(k := r)) t = t \<and> (t \<in> set keys \<or> (\<forall>x \<in> set keys. \<not> prefix x t)))
      \<or> (t \<notin> set keys \<and> group_text ((f(k := r)) t))"
  proof (cases "t = k")
    case True
    then show ?thesis
      using assms(2,3) by simp
  next
    case False
    then show ?thesis
      using assms(1) t unfolding pending_def by auto
  qed
qed

lemma pending_skip:
  assumes "pending f (k # keys) q" and "k \<notin> set (tokens q)"
  shows "pending f keys q"
  unfolding pending_def
proof
  fix t
  assume t: "t \<in> set (tokens q)"
  then have "t \<noteq> k"
    using assms(2) by auto
  then show "(f t = t \<and> (t \<in> set keys \<or> (\<forall>x \<in> set keys. \<not> prefix x t)))
      \<or> (t \<notin> set keys \<and> group_text (f t))"
    using assms(1) t unfolding pending_def by auto
qed

lemma pending_start:
  "\<forall>t \<in> set (tokens q). t \<in> set keys \<or> (\<forall>k \<in> set keys. \<not> prefix k t)
    \<Longrightarrow> pending (\<lambda>t. t) keys q"
  unfolding pending_def by auto

lemma transformLoop_subst:
  "sorted_wrt (\<lambda>a b. length b \<le> length a) keys \<Longrightarrow> distinct keys
    \<Longrightarrow> \<forall>k \<in> set keys. named_key k \<Longrightarrow> pending f keys q
    \<Longrightarrow> transformLoop obj keys (subst f q, out)
        = (case assign obj q keys (f, out) of (f', out') \<Rightarrow> Inr (subst f' q, out'))"
proof (induction keys arbitrary: f out)
  case Nil
  then show ?case by simp
next
  case (Cons k keys)
  have nk: "named_key k" and sw: "startsWith_dollar k" and lk: "literal_key k"
    using Cons.prems(3) by (simp_all add: named_key_startsWith named_key_literal)
  have rd: "ready f k q"
    using Cons.prems(4,1) by (rule pending_ready)
  have srt: "sorted_wrt (\<lambda>a b. length b \<le> length a) keys" and dist: "distinct keys"
    and nks: "\<forall>x \<in> set keys. named_key x" and fresh: "k \<notin> set keys"
    using Cons.prems by simp_all
  have occ: "occurs k (subst f q) = (k \<in> set (tokens q))"
    using nk rd by (rule occurs_subst)
  show ?case
  proof (cases "k \<in> set (tokens q)")
    case False
    have no: "\<not> occurs k (subst f q)"
      using occ False by simp
    have "transformLoop obj (k # keys) (subst f q, out) = transformLoop obj keys (subst f q, out)"
      using sw lk no by (rule transformLoop_step_absent)
    also have "\<dots> = (case assign obj q keys (f, out) of (f', out') \<Rightarrow> Inr (subst f' q, out'))"
      using srt dist nks pending_skip [OF Cons.prems(4) False] by (rule Cons.IH)
    also have "assign obj q keys (f, out) = assign obj q (k # keys) (f, out)"
      using False by simp
    finally show ?thesis .
  next
    case True
    then have o: "occurs k (subst f q)"
      using occ by simp
    show ?thesis
    proof (cases "isArray (js_get obj k)")
      case True
      then obtain items where it: "js_get obj k = Array items"
        by (cases "js_get obj k") auto
      let ?g = "placeholder_group (length out) (length items)"
      have "transformLoop obj (k # keys) (subst f q, out)
          = transformLoop obj keys (replace_all k ?g (subst f q), out @ items)"
        using sw lk o it by (rule transformLoop_step_array)
      also have "replace_all k ?g (subst f q) = subst (f(k := ?g)) q"
        using nk rd by (rule replace_all_subst)
      also have "transformLoop obj keys (subst (f(k := ?g)) q, out @ items)
          = (case assign obj q keys (f(k := ?g), out @ items) of
               (f', out') \<Rightarrow> Inr (subst f' q, out'))"
        using srt dist nks pending_update [OF Cons.prems(4) fresh group_text_group]
        by (rule Cons.IH)
      also have "assign obj q keys (f(k := ?g), out @ items) = assign obj q (k # keys) (f, out)"
        using \<open>k \<in> set (tokens q)\<close> it by simp
      finally show ?thesis .
    next
      case False
      let ?g = "placeholder (length out + 1)"
      have "transformLoop obj (k # keys) (subst f q, out)
          = transformLoop obj keys (replace_all k ?g (subst f q), out @ [js_get obj k])"
        using sw lk o False by (rule transformLoop_step_scalar)
      also have "replace_all k ?g (subst f q) = subst (f(k := ?g)) q"
        using nk rd by (rule replace_all_subst)
      also have "transformLoop obj keys (subst (f(k := ?g)) q, out @ [js_get obj k])
          = (case assign obj q keys (f(k := ?g), out @ [js_get obj k]) of
               (f', out') \<Rightarrow> Inr (subst f' q, out'))"
        using srt dist nks pending_update [OF Cons.prems(4) fresh group_text_placeholder]
        by (rule Cons.IH)
      also have "assign obj q keys (f(k := ?g), out @ [js_get obj k])
          = assign obj q (k # keys) (f, out)"
        using \<open>k \<in> set (tokens q)\<close> False by simp
      finally show ?thesis .
    qed
  qed
qed

lemma takeWhile_ident_dollar:
  "takeWhile ident_char (cs @ CHR ''$'' # w) = takeWhile ident_char cs"
  by (induction cs) (auto simp: ident_char_def)

lemma dropWhile_ident_dollar:
  "dropWhile ident_char (cs @ CHR ''$'' # w) = dropWhile ident_char cs @ CHR ''$'' # w"
  by (induction cs) (auto simp: ident_char_def)

lemma subst_append_dollar:
  "subst f (u @ CHR ''$'' # w) = subst f u @ subst f (CHR ''$'' # w)"
proof (induction f u rule: subst.induct)
  case (1 f)
  then show ?case by simp
next
  case (2 f c cs)
  show ?case
  proof (cases "c = CHR ''$''")
    case True
    have "subst f (dropWhile ident_char cs @ CHR ''$'' # w)
        = subst f (dropWhile ident_char cs) @ subst f (CHR ''$'' # w)"
      using "2.IH"(1) [OF True] .
    then show ?thesis
      using True by (simp add: takeWhile_ident_dollar dropWhile_ident_dollar)
  next
    case False
    then show ?thesis
      using "2.IH"(2) [OF False] by simp
  qed
qed

lemma subst_token:
  assumes "named_key k" and "nonident_start v"
  shows "subst f (k @ v) = f k @ subst f v"
proof -
  obtain body where k: "k = CHR ''$'' # body" and id: "list_all ident_char body"
    using named_keyD [OF assms(1)] by blast
  have t: "takeWhile ident_char (body @ v) = body"
    using id assms(2) by (cases v) (auto simp: nonident_start_def list_all_iff)
  have d: "dropWhile ident_char (body @ v) = v"
    using id assms(2) by (cases v) (auto simp: nonident_start_def list_all_iff)
  show ?thesis
    using t d by (simp add: k)
qed

lemma subst_at_key:
  assumes "named_key k" and "nonident_start v"
  shows "subst f (u @ k @ v) = subst f u @ f k @ subst f v"
proof -
  obtain body where k: "k = CHR ''$'' # body"
    using named_keyD [OF assms(1)] by blast
  have "subst f (u @ k @ v) = subst f u @ subst f (k @ v)"
    unfolding k using subst_append_dollar [of f u "body @ v"] by simp
  then show ?thesis
    using subst_token [OF assms] by simp
qed

lemma transformQuery_subst:
  assumes "distinct (map fst obj)" and "\<forall>k \<in> set (map fst obj). named_key k"
    and "\<forall>t \<in> set (tokens q).
      t \<in> set (map fst obj) \<or> (\<forall>k \<in> set (map fst obj). \<not> prefix k t)"
  shows "transformQuery q (ParamObject obj)
     = (case assign obj q (sortKeys (map fst obj)) (\<lambda>t. t, []) of
          (f, out) \<Rightarrow> Inr (subst f q, Some out))"
proof -
  let ?keys = "sortKeys (map fst obj)"
  have ok: "Object_keys obj = map fst obj"
    using assms(2) by (intro Object_keys_dollar) (auto simp: named_key_startsWith)
  have "transformLoop obj ?keys (subst (\<lambda>t. t) q, [])
      = (case assign obj q ?keys (\<lambda>t. t, []) of (f', out') \<Rightarrow> Inr (subst f' q, out'))"
  proof (rule transformLoop_subst)
    show "sorted_wrt (\<lambda>a b. length b \<le> length a) ?keys" by (rule sorted_sortKeys)
    show "distinct ?keys" using assms(1) by (simp add: distinct_sortKeys)
    show "\<forall>k \<in> set ?keys. named_key k" using assms(2) by (simp add: set_sortKeys)
    show "pending (\<lambda>t. t) ?keys q" using assms(3) by (intro pending_start) (simp add: set_sortKeys)
  qed
  then show ?thesis
    by (simp add: transformQuery_def ok subst_id split: prod.splits)
qed

text \<open>
  Claim C1, as stated: for every named parameter set, a key that is a prefix of a longer
  key is never matched inside an occurrence of the longer key. The only check on a key
  is its leading \<open>$\<close>. With the keys \<open>$1\<close> and \<open>$10\<close> the longer key is replaced
  first, by the placeholder \<open>$1\<close>, and that text is then matched by the shorter key:
  the place of the longer key ends with the index of the shorter key's value, where the
  substitution by whole tokens gives each key its own index.
\<close>

theorem digit_keys_collide:
  "transformQuery ''x = $10 AND y = $1'' (ParamObject [(''$1'', Scalar ''a''), (''$10'', Scalar ''b'')])
     = Inr (''x = $2 AND y = $2'', Some [Scalar ''b'', Scalar ''a''])
   \<and> strict_prefix ''$1'' ''$10''
   \<and> (case assign [(''$1'', Scalar ''a''), (''$10'', Scalar ''b'')] ''x = $10 AND y = $1''
              (sortKeys (map fst [(''$1'', Scalar ''a''), (''$10'', Scalar ''b'')])) (\<lambda>t. t, []) of
         (f, out) \<Rightarrow> Inr (subst f ''x = $10 AND y = $1'', Some out))
     = (Inr (''x = $1 AND y = $2'', Some [Scalar ''b'', Scalar ''a''])
          :: error + string \<times> string jsval list option)"
proof -
  let ?q = "''x = $10 AND y = $1''"
  let ?obj = "[(''$1'', Scalar ''a''), (''$10'', Scalar ''b'')]"
  have k: "sortKeys (Object_keys ?obj) = [''$10'', ''$1'']"
    by (simp add: Object_keys_def array_index_def is_digit_def sortKeys_def)
  have sk: "sortKeys (map fst ?obj) = [''$10'', ''$1'']"
    by (simp add: sortKeys_def)
  have s2: "show_nat (Suc (Suc 0)) = ''2''"
    by (simp add: show_nat.simps digit_char_def)
  have p1: "startsWith_dollar ''$10''" "literal_key ''$10''" "occurs ''$10'' ?q"
    "\<not> isArray (js_get ?obj ''$10'')"
    by (simp_all add: startsWith_dollar_def literal_key_def rx_special_def backslash_def js_get_def)
  have p2: "startsWith_dollar ''$1''" "literal_key ''$1''" "occurs ''$1'' ''x = $1 AND y = $1''"
    "\<not> isArray (js_get ?obj ''$1'')"
    by (simp_all add: startsWith_dollar_def literal_key_def rx_special_def backslash_def js_get_def)
  have "transformLoop ?obj [''$10'', ''$1''] (?q, [])
      = transformLoop ?obj [''$1'']
          (replace_all ''$10'' (placeholder (length ([] :: string jsval list) + 1)) ?q,
           [] @ [js_get ?obj ''$10''])"
    using p1 by (rule transformLoop_step_scalar)
  also have "\<dots> = transformLoop ?obj [''$1''] (''x = $1 AND y = $1'', [Scalar ''b''])"
    by (simp add: placeholder_def show_nat_1 js_get_def del: transformLoop.simps(2))
  also have "\<dots> = transformLoop ?obj []
          (replace_all ''$1'' (placeholder (length [Scalar ''b''] + 1)) ''x = $1 AND y = $1'',
           [Scalar ''b''] @ [js_get ?obj ''$1''])"
    using p2 by (rule transformLoop_step_scalar)
  also have "\<dots> = Inr (''x = $2 AND y = $2'', [Scalar ''b'', Scalar ''a''])"
    by (simp add: placeholder_def s2 js_get_def)
  finally have t: "transformQuery ?q (ParamObject ?obj)
      = Inr (''x = $2 AND y = $2'', Some [Scalar ''b'', Scalar ''a''])"
    by (simp add: transformQuery_def k del: transformLoop.simps(2))
  have as: "assign ?obj ?q [''$10'', ''$1''] (\<lambda>t. t, [])
      = ((\<lambda>t. t)(''$10'' := ''$1'', ''$1'' := ''$2''), [Scalar ''b'', Scalar ''a''])"
    by (simp add: ident_char_def js_get_def placeholder_def show_nat_1 s2)
  have su: "subst ((\<lambda>t. t)(''$10'' := ''$1'', ''$1'' := ''$2'')) ?q = ''x = $1 AND y = $2''"
    by (simp add: ident_char_def)
  have a: "(case assign ?obj ?q (sortKeys (map fst ?obj)) (\<lambda>t. t, []) of
         (f, out) \<Rightarrow> Inr (subst f ?q, Some out))
     = (Inr (''x = $1 AND y = $2'', Some [Scalar ''b'', Scalar ''a''])
          :: error + string \<times> string jsval list option)"
    unfolding sk as by (simp only: su prod.case)
  have "strict_prefix ''$1'' ''$10''"
    by (simp add: strict_prefix_def)
  with t a show ?thesis by blast
qed

text \<open>
  Claim C1, amended. The keys are processed in an order of non-increasing length, a
  rearrangement of the keys of the object. When the keys are distinct named placeholders
  and every token of the query is a key or has no key as a prefix, the result of
  \<open>transformQuery\<close> is the substitution by tokens: each token that is a key is replaced
  as a whole by the text given to that key, and the other tokens stay, so a shorter key
  is never replaced inside a longer one. In particular an occurrence of a key that ends
  where no identifier character follows is replaced by that key's own text, whatever
  prefixes of it are keys as well.
\<close>

theorem longest_key_first:
  "sorted_wrt (\<lambda>a b. length b \<le> length a) (sortKeys ks)
   \<and> set (sortKeys ks) = set ks \<and> length (sortKeys ks) = length ks
   \<and> (distinct (map fst obj) \<and> (\<forall>k \<in> set (map fst obj). named_key k)
        \<and> (\<forall>t \<in> set (tokens q).
              t \<in> set (map fst obj) \<or> (\<forall>k \<in> set (map fst obj). \<not> prefix k t)) \<longrightarrow>
      transformQuery q (ParamObject obj)
        = (case assign obj q (sortKeys (map fst obj)) (\<lambda>t. t, []) of
             (f, out) \<Rightarrow> Inr (subst f q, Some out)))
   \<and> (named_key k2 \<and> nonident_start v \<longrightarrow> subst g (u @ k2 @ v) = subst g u @ g k2 @ subst g v)"
  using sorted_sortKeys [of ks] set_sortKeys [of ks] length_sortKeys [of ks]
    transformQuery_subst [of obj q] subst_at_key [of k2 v g u]
  by blast

theorem longest_key_first_witness:
  "transformQuery ''field = $some_field_2 AND field2 = $some_field''
       (ParamObject [(''$some_field'', Scalar ''value''), (''$some_field_2'', Scalar ''anotherValue'')])
     = Inr (''field = $1 AND field2 = $2'', Some [Scalar ''anotherValue'', Scalar ''value''])"
proof -
  let ?q = "''field = $some_field_2 AND field2 = $some_field''"
  let ?obj = "[(''$some_field'', Scalar ''value''), (''$some_field_2'', Scalar ''anotherValue'')]"
  have nk: "\<forall>k \<in> set (map fst ?obj). named_key k"
    by (simp add: named_key_def ident_char_def is_digit_def)
  have tk: "tokens ?q = [''$some_field_2'', ''$some_field'']"
    by (simp add: ident_char_def)
  have sk: "sortKeys (map fst ?obj) = [''$some_field_2'', ''$some_field'']"
    by (simp add: sortKeys_def)
  have s2: "show_nat (Suc (Suc 0)) = ''2''"
    by (simp add: show_nat.simps digit_char_def)
  have as: "assign ?obj ?q [''$some_field_2'', ''$some_field''] (\<lambda>t. t, [])
      = ((\<lambda>t. t)(''$some_field_2'' := ''$1'', ''$some_field'' := ''$2''),
         [Scalar ''anotherValue'', Scalar ''value''])"
    by (simp add: ident_char_def js_get_def placeholder_def show_nat_1 s2)
  have su: "subst ((\<lambda>t. t)(''$some_field_2'' := ''$1'', ''$some_field'' := ''$2'')) ?q
      = ''field = $1 AND field2 = $2''"
    by (simp add: ident_char_def)
  have hyp: "distinct (map fst ?obj) \<and> (\<forall>k \<in> set (map fst ?obj). named_key k)
      \<and> (\<forall>t \<in> set (tokens ?q).
            t \<in> set (map fst ?obj) \<or> (\<forall>k \<in> set (map fst ?obj). \<not> prefix k t))"
    using nk by (simp add: ident_char_def)
  have "transformQuery ?q (ParamObject ?obj)
      = (case assign ?obj ?q (sortKeys (map fst ?obj)) (\<lambda>t. t, []) of
           (f, out) \<Rightarrow> Inr (subst f ?q, Some out))"
    using longest_key_first [where obj = ?obj and q = ?q and ks = "[]" and ?k2.0 = "[]"
        and v = "[]" and g = "\<lambda>t. t" and u = "[]"] hyp
    by blast
  also have "\<dots> = Inr (''field = $1 AND field2 = $2'', Some [Scalar ''anotherValue'', Scalar ''value''])"
    unfolding sk as by (simp only: su prod.case)
  finally show ?thesis .
qed

subsection \<open>The indices of the rewritten query\<close>

lemma token_shape:
  "t \<in> set (tokens q) \<Longrightarrow> \<exists>tb. t = CHR ''$'' # tb \<and> list_all ident_char tb"
  by (induction q) (auto split: if_splits simp: list_all_iff dest: set_takeWhileD)

lemma takeWhile_nondigit: "nondigit_start s \<Longrightarrow> takeWhile is_digit s = []"
  by (cases s) (auto simp: nondigit_start_def)

lemma nondigit_start_append:
  "nondigit_start u \<Longrightarrow> nondigit_start v \<Longrightarrow> nondigit_start (u @ v)"
  by (cases u) (auto simp: nondigit_start_def)

lemma placeholders_plain_token:
  assumes "list_all ident_char tb" and "nondigit_start tb" and "nondigit_start X"
  shows "placeholders (CHR ''$'' # tb @ X) = placeholders X"
proof -
  have "takeWhile is_digit (tb @ X) = []"
    using assms(2,3) by (intro takeWhile_nondigit nondigit_start_append)
  then have "placeholders (CHR ''$'' # tb @ X) = placeholders (tb @ X)"
    by simp
  moreover have "CHR ''$'' \<notin> set tb"
    using assms(1) by (auto simp: list_all_iff dest: ident_not_dollar)
  ultimately show ?thesis
    by (simp add: placeholders_skip)
qed

lemma plain_token_placeholders:
  assumes "t \<in> set (tokens q)" and "nondigit_start (tl t)"
  shows "placeholders t = []"
proof -
  obtain tb where t: "t = CHR ''$'' # tb" and id: "list_all ident_char tb"
    using token_shape [OF assms(1)] by blast
  have "placeholders (CHR ''$'' # tb @ []) = placeholders []"
    using id assms(2) t by (intro placeholders_plain_token) (simp_all add: nondigit_start_def)
  then show ?thesis
    using t by simp
qed

lemma placeholders_subst:
  "\<forall>t \<in> set (tokens q). group_text (f t) \<or> (f t = t \<and> nondigit_start (tl t))
    \<Longrightarrow> placeholders (subst f q) = concat (map (\<lambda>t. placeholders (f t)) (tokens q))"
proof (induction f q rule: subst.induct)
  case (1 f)
  then show ?case by simp
next
  case (2 f c cs)
  show ?case
  proof (cases "c = CHR ''$''")
    case False
    have "\<forall>t \<in> set (tokens cs). group_text (f t) \<or> (f t = t \<and> nondigit_start (tl t))"
      using "2.prems" False by simp
    then have "placeholders (subst f cs) = concat (map (\<lambda>t. placeholders (f t)) (tokens cs))"
      using "2.IH"(2) [OF False] by simp
    then show ?thesis
      using False by simp
  next
    case True
    let ?tb = "takeWhile ident_char cs"
    let ?t = "c # ?tb"
    let ?rest = "dropWhile ident_char cs"
    let ?X = "subst f ?rest"
    have g: "\<forall>t \<in> set (tokens ?rest). group_text (f t) \<or> (f t = t \<and> nondigit_start (tl t))"
      using "2.prems" True by (simp add: tokens_dropWhile)
    have ih: "placeholders ?X = concat (map (\<lambda>t. placeholders (f t)) (tokens cs))"
      using "2.IH"(1) [OF True g] by (simp add: tokens_dropWhile)
    have "\<forall>t \<in> set (tokens ?rest). f t = [] \<or> hd (f t) = CHR ''$''"
    proof
      fix t
      assume t: "t \<in> set (tokens ?rest)"
      with g consider "group_text (f t)" | "f t = t" by blast
      then show "f t = [] \<or> hd (f t) = CHR ''$''"
      proof cases
        case 1
        then show ?thesis by (rule group_text_start)
      next
        case 2
        then show ?thesis using token_start [OF t] by simp
      qed
    qed
    then have "nonident_start ?X"
      using nonident_start_dropWhile by (rule subst_start)
    then have nd: "nondigit_start ?X"
      by (rule nonident_nondigit)
    have sb: "subst f (c # cs) = f ?t @ ?X"
      using True by simp
    have tk: "tokens (c # cs) = ?t # tokens cs"
      using True by simp
    have "?t \<in> set (tokens (c # cs))"
      using True by simp
    then consider (grp) "group_text (f ?t)" | (self) "f ?t = ?t" "nondigit_start (tl ?t)"
      using "2.prems" by blast
    then have "placeholders (f ?t @ ?X) = placeholders (f ?t) @ placeholders ?X"
    proof cases
      case grp
      then obtain a m where gt: "f ?t = placeholder_group a m"
        by (auto simp: group_text_def)
      show ?thesis
        unfolding gt using nd by (simp add: placeholders_group placeholders_group_alone)
    next
      case self
      have id: "list_all ident_char ?tb"
        by (auto simp: list_all_iff dest: set_takeWhileD)
      have n: "nondigit_start ?tb"
        using self(2) by simp
      have "placeholders (CHR ''$'' # ?tb @ ?X) = placeholders ?X"
        using id n nd by (rule placeholders_plain_token)
      moreover have "placeholders (CHR ''$'' # ?tb @ []) = placeholders []"
        using id n by (rule placeholders_plain_token) (simp add: nondigit_start_def)
      ultimately show ?thesis
        using self(1) True by simp
    qed
    then show ?thesis
      using ih sb tk by simp
  qed
qed

lemma pending_key_self:
  "pending f (k # keys) q \<Longrightarrow> k \<in> set (tokens q) \<Longrightarrow> f k = k"
  unfolding pending_def by auto

lemma indices_update:
  assumes k: "k \<in> set (tokens q)" and e: "placeholders (f k) = []"
    and u: "(\<Union>t \<in> set (tokens q). set (placeholders (f t))) = {1..n}"
  shows "(\<Union>t \<in> set (tokens q). set (placeholders ((f(k := placeholder_group n m)) t)))
     = {1..n + m}"
proof -
  let ?T = "set (tokens q)"
  have "(\<Union>t \<in> ?T. set (placeholders ((f(k := placeholder_group n m)) t)))
      = (\<Union>t \<in> ?T - {k}. set (placeholders (f t))) \<union> set (placeholders (placeholder_group n m))"
    using k by (auto split: if_splits)
  moreover have "(\<Union>t \<in> ?T - {k}. set (placeholders (f t))) = (\<Union>t \<in> ?T. set (placeholders (f t)))"
    using e by auto
  moreover have "set (placeholders (placeholder_group n m)) = {n + 1..n + m}"
    by (auto simp: placeholders_group_alone)
  ultimately show ?thesis
    using u by auto
qed

lemma assign_indices:
  "distinct keys \<Longrightarrow> \<forall>k \<in> set keys. named_key k \<Longrightarrow> pending f keys q
    \<Longrightarrow> (\<Union>t \<in> set (tokens q). set (placeholders (f t))) = {1..length out}
    \<Longrightarrow> assign obj q keys (f, out) = (f', out')
    \<Longrightarrow> pending f' [] q
        \<and> (\<Union>t \<in> set (tokens q). set (placeholders (f' t))) = {1..length out'}"
proof (induction keys arbitrary: f out)
  case Nil
  then show ?case by simp
next
  case (Cons k keys)
  have dist: "distinct keys" and nks: "\<forall>x \<in> set keys. named_key x" and fresh: "k \<notin> set keys"
    and nk: "named_key k"
    using Cons.prems by simp_all
  show ?case
  proof (cases "k \<in> set (tokens q)")
    case False
    have "assign obj q keys (f, out) = (f', out')"
      using Cons.prems(5) False by simp
    with dist nks pending_skip [OF Cons.prems(3) False] Cons.prems(4)
    show ?thesis by (rule Cons.IH)
  next
    case True
    have "f k = k"
      using Cons.prems(3) True by (rule pending_key_self)
    then have e: "placeholders (f k) = []"
      using nk by (simp add: named_key_placeholders)
    show ?thesis
    proof (cases "isArray (js_get obj k)")
      case ar: True
      let ?items = "array_items (js_get obj k)"
      let ?g = "placeholder_group (length out) (length ?items)"
      have a: "assign obj q keys (f(k := ?g), out @ ?items) = (f', out')"
        using Cons.prems(5) True ar by simp
      have u: "(\<Union>t \<in> set (tokens q). set (placeholders ((f(k := ?g)) t)))
          = {1..length (out @ ?items)}"
        using indices_update [OF True e Cons.prems(4)] by simp
      from dist nks pending_update [OF Cons.prems(3) fresh group_text_group] u a
      show ?thesis by (rule Cons.IH)
    next
      case sc: False
      let ?g = "placeholder_group (length out) 1"
      have pg: "placeholder (length out + 1) = ?g"
        by simp
      have a: "assign obj q keys (f(k := ?g), out @ [js_get obj k]) = (f', out')"
        using Cons.prems(5) True sc unfolding pg [symmetric] by simp
      have u: "(\<Union>t \<in> set (tokens q). set (placeholders ((f(k := ?g)) t)))
          = {1..length (out @ [js_get obj k])}"
        using indices_update [OF True e Cons.prems(4), of 1]
        by (simp del: placeholder_group.simps)
      from dist nks pending_update [OF Cons.prems(3) fresh group_text_group] u a
      show ?thesis by (rule Cons.IH)
    qed
  qed
qed

lemma transformQuery_indices:
  assumes "distinct (map fst obj)" and "\<forall>k \<in> set (map fst obj). named_key k"
    and "\<forall>t \<in> set (tokens q). t \<in> set (map fst obj)
      \<or> ((\<forall>k \<in> set (map fst obj). \<not> prefix k t) \<and> nondigit_start (tl t))"
  shows "\<exists>q' out. transformQuery q (ParamObject obj) = Inr (q', Some out)
      \<and> set (placeholders q') = {1..length out}"
proof -
  let ?keys = "sortKeys (map fst obj)"
  obtain f out where a: "assign obj q ?keys (\<lambda>t. t, []) = (f, out)"
    by (cases "assign obj q ?keys (\<lambda>t. t, [])")
  have b: "\<forall>t \<in> set (tokens q).
      t \<in> set (map fst obj) \<or> (\<forall>k \<in> set (map fst obj). \<not> prefix k t)"
    using assms(3) by blast
  have t: "transformQuery q (ParamObject obj) = Inr (subst f q, Some out)"
    using transformQuery_subst [OF assms(1,2) b] a by simp
  have d: "distinct ?keys"
    using assms(1) by (simp add: distinct_sortKeys)
  have n: "\<forall>k \<in> set ?keys. named_key k"
    using assms(2) by (simp add: set_sortKeys)
  have p: "pending (\<lambda>t. t) ?keys q"
    using b by (intro pending_start) (simp add: set_sortKeys)
  have nd: "\<forall>t \<in> set (tokens q). nondigit_start (tl t)"
  proof
    fix t
    assume "t \<in> set (tokens q)"
    with assms(3) consider "t \<in> set (map fst obj)" | "nondigit_start (tl t)"
      by blast
    then show "nondigit_start (tl t)"
    proof cases
      case 1
      then have "named_key t"
        using assms(2) by blast
      then show ?thesis
        using named_keyD [of t] by (auto simp: nondigit_start_def)
    qed
  qed
  have "\<forall>t \<in> set (tokens q). placeholders t = []"
    using nd by (auto intro: plain_token_placeholders)
  then have u: "(\<Union>t \<in> set (tokens q). set (placeholders ((\<lambda>t. t) t))) = {1..length ([] :: 'a jsval list)}"
    by simp
  have r: "pending f [] q \<and> (\<Union>t \<in> set (tokens q). set (placeholders (f t))) = {1..length out}"
    using d n p u a by (rule assign_indices)
  then have "\<forall>t \<in> set (tokens q). group_text (f t) \<or> (f t = t \<and> nondigit_start (tl t))"
    using nd by (auto simp: pending_def)
  then have "placeholders (subst f q) = concat (map (\<lambda>t. placeholders (f t)) (tokens q))"
    by (rule placeholders_subst)
  then have "set (placeholders (subst f q)) = {1..length out}"
    using r by simp
  with t show ?thesis by blast
qed

text \<open>
  Claim C2, as stated: for every query and every named parameter set, the placeholders of
  the rewritten query are as many as the parameters and carry the indices \<open>1..N\<close>.
  With the key \<open>$id\<close> and a query that also mentions \<open>$id2\<close>, the placeholder of
  \<open>$id\<close> is followed by the \<open>2\<close>: the rewritten query has the indices 1 and 12, and
  one parameter.
\<close>

theorem key_before_digit_breaks_numbering:
  "transformQuery ''a = $id AND b = $id2'' (ParamObject [(''$id'', Scalar ''7'')])
     = Inr (''a = $1 AND b = $12'', Some [Scalar ''7''])
   \<and> placeholders ''a = $1 AND b = $12'' = [1, 12]
   \<and> length (placeholders ''a = $1 AND b = $12'') \<noteq> length [Scalar ''7'']
   \<and> card (set (placeholders ''a = $1 AND b = $12'')) \<noteq> length [Scalar ''7'']
   \<and> set (placeholders ''a = $1 AND b = $12'') \<noteq> {1..length [Scalar ''7'']}"
proof -
  let ?obj = "[(''$id'', Scalar ''7'')]"
  have k: "sortKeys (Object_keys ?obj) = [''$id'']"
    by (simp add: Object_keys_def array_index_def is_digit_def sortKeys_single)
  have p: "startsWith_dollar ''$id''" "literal_key ''$id''" "occurs ''$id'' ''a = $id AND b = $id2''"
    "\<not> isArray (js_get ?obj ''$id'')"
    by (simp_all add: startsWith_dollar_def literal_key_def rx_special_def backslash_def js_get_def)
  have "transformLoop ?obj [''$id''] (''a = $id AND b = $id2'', [])
      = transformLoop ?obj []
          (replace_all ''$id'' (placeholder (length ([] :: string jsval list) + 1)) ''a = $id AND b = $id2'',
           [] @ [js_get ?obj ''$id''])"
    using p by (rule transformLoop_step_scalar)
  also have "\<dots> = Inr (''a = $1 AND b = $12'', [Scalar ''7''])"
    by (simp add: placeholder_def show_nat_1 js_get_def)
  finally have t: "transformQuery ''a = $id AND b = $id2'' (ParamObject ?obj)
      = Inr (''a = $1 AND b = $12'', Some [Scalar ''7''])"
    by (simp add: transformQuery_def k del: transformLoop.simps(2))
  have ph: "placeholders ''a = $1 AND b = $12'' = [1, 12]"
    by (simp add: is_digit_def digits_value_def digit_val_def)
  have "set (placeholders ''a = $1 AND b = $12'') \<noteq> {1..length [Scalar ''7'']}"
    unfolding ph by auto
  moreover have "card (set (placeholders ''a = $1 AND b = $12'')) \<noteq> length [Scalar ''7'']"
    unfolding ph by simp
  ultimately show ?thesis
    using t ph by simp
qed

text \<open>
  Claim C2, amended. When the keys are distinct named placeholders and every token of
  the query is a key, or else has no key as a prefix and no digit after its \<open>$\<close>,
  \<open>transformQuery\<close> succeeds, and the indices of the placeholders of the rewritten
  query are exactly \<open>1..N\<close> for the length \<open>N\<close> of the parameter list: no gap, none
  beyond \<open>N\<close>, and as many distinct indices as parameters.
\<close>

theorem placeholders_contiguous:
  "distinct (map fst obj) \<and> (\<forall>k \<in> set (map fst obj). named_key k)
      \<and> (\<forall>t \<in> set (tokens q). t \<in> set (map fst obj)
            \<or> ((\<forall>k \<in> set (map fst obj). \<not> prefix k t) \<and> nondigit_start (tl t))) \<longrightarrow>
   (\<exists>q' out. transformQuery q (ParamObject obj) = Inr (q', Some out)
      \<and> set (placeholders q') = {1..length out}
      \<and> card (set (placeholders q')) = length out)"
proof
  assume a: "distinct (map fst obj) \<and> (\<forall>k \<in> set (map fst obj). named_key k)
      \<and> (\<forall>t \<in> set (tokens q). t \<in> set (map fst obj)
            \<or> ((\<forall>k \<in> set (map fst obj). \<not> prefix k t) \<and> nondigit_start (tl t)))"
  then obtain q' out where t: "transformQuery q (ParamObject obj) = Inr (q', Some out)"
    and s: "set (placeholders q') = {1..length out}"
    using transformQuery_indices [of obj q] by blast
  have "card (set (placeholders q')) = length out"
    unfolding s by simp
  with t s show "\<exists>q' out. transformQuery q (ParamObject obj) = Inr (q', Some out)
      \<and> set (placeholders q') = {1..length out}
      \<and> card (set (placeholders q')) = length out"
    by blast
qed

theorem placeholders_contiguous_witness:
  "transformQuery ''name = $name AND id IN ($ids)''
       (ParamObject [(''$name'', Scalar ''John''), (''$ids'', Array [Scalar ''1'', Scalar ''2''])])
     = Inr (''name = $1 AND id IN ($2, $3)'', Some [Scalar ''John'', Scalar ''1'', Scalar ''2''])
   \<and> set (placeholders ''name = $1 AND id IN ($2, $3)'') = {1..3}"
proof -
  let ?q = "''name = $name AND id IN ($ids)''"
  let ?obj = "[(''$name'', Scalar ''John''), (''$ids'', Array [Scalar ''1'', Scalar ''2''])]"
  have hyp: "distinct (map fst ?obj) \<and> (\<forall>k \<in> set (map fst ?obj). named_key k)
      \<and> (\<forall>t \<in> set (tokens ?q). t \<in> set (map fst ?obj)
            \<or> ((\<forall>k \<in> set (map fst ?obj). \<not> prefix k t) \<and> nondigit_start (tl t)))"
    by (simp add: named_key_def ident_char_def is_digit_def)
  have sk: "sortKeys (map fst ?obj) = [''$name'', ''$ids'']"
    by (simp add: sortKeys_def)
  have s2: "show_nat (Suc (Suc 0)) = ''2''" and s3: "show_nat (Suc (Suc (Suc 0))) = ''3''"
    by (simp_all add: show_nat.simps digit_char_def)
  have as: "assign ?obj ?q [''$name'', ''$ids''] (\<lambda>t. t, [])
      = ((\<lambda>t. t)(''$name'' := ''$1'', ''$ids'' := ''$2, $3''),
         [Scalar ''John'', Scalar ''1'', Scalar ''2''])"
    by (simp add: ident_char_def js_get_def placeholder_def show_nat_1 s2 s3 numeral_2_eq_2)
  have su: "subst ((\<lambda>t. t)(''$name'' := ''$1'', ''$ids'' := ''$2, $3'')) ?q
      = ''name = $1 AND id IN ($2, $3)''"
    by (simp add: ident_char_def)
  have "transformQuery ?q (ParamObject ?obj)
      = (case assign ?obj ?q (sortKeys (map fst ?obj)) (\<lambda>t. t, []) of
           (f, out) \<Rightarrow> Inr (subst f ?q, Some out))"
    using hyp by (intro transformQuery_subst) auto
  also have "\<dots> = Inr (''name = $1 AND id IN ($2, $3)'', Some [Scalar ''John'', Scalar ''1'', Scalar ''2''])"
    unfolding sk as by (simp only: su prod.case)
  finally have ev: "transformQuery ?q (ParamObject ?obj)
      = Inr (''name = $1 AND id IN ($2, $3)'', Some [Scalar ''John'', Scalar ''1'', Scalar ''2''])" .
  obtain q' out where t: "transformQuery ?q (ParamObject ?obj) = Inr (q', Some out)"
    and s: "set (placeholders q') = {1..length out}"
    using placeholders_contiguous [of ?obj ?q] hyp by blast
  from t ev have "q' = ''name = $1 AND id IN ($2, $3)''"
    and "out = [Scalar ''John'', Scalar ''1'', Scalar ''2'']"
    by simp_all
  with s have "set (placeholders ''name = $1 AND id IN ($2, $3)'') = {1..3}"
    by simp
  with ev show ?thesis by blast
qed

subsection \<open>The texts and the parameters given to the keys\<close>

lemma assign_cases:
  "assign obj q (key # keys) (f, out) =
     (if key \<in> set (tokens q) then
        assign obj q keys
          (f(key := placeholder_group (length out) (length (param_values obj key))),
           out @ param_values obj key)
      else assign obj q keys (f, out))"
  by (simp add: param_values_def)

lemma assign_out:
  "snd (assign obj q keys (f, out)) = out @ concat (map (param_values obj) (found_keys q keys))"
proof (induction keys arbitrary: f out)
  case Nil
  then show ?case by (simp add: found_keys_def)
next
  case (Cons x keys)
  then show ?case
    by (simp add: assign_cases found_keys_def del: assign.simps(2))
qed

lemma assign_other: "k \<notin> set keys \<Longrightarrow> fst (assign obj q keys (f, out)) k = f k"
proof (induction keys arbitrary: f out)
  case Nil
  then show ?case by simp
next
  case (Cons x keys)
  then show ?case
    by (simp add: assign_cases del: assign.simps(2))
qed

lemma assign_text:
  "distinct keys \<Longrightarrow> k \<in> set keys \<Longrightarrow> k \<in> set (tokens q)
    \<Longrightarrow> fst (assign obj q keys (f, out)) k
        = placeholder_group
            (length out + length (concat (map (param_values obj)
               (takeWhile (\<lambda>x. x \<noteq> k) (found_keys q keys)))))
            (length (param_values obj k))"
proof (induction keys arbitrary: f out)
  case Nil
  then show ?case by simp
next
  case (Cons x keys)
  show ?case
  proof (cases "x = k")
    case True
    have "k \<notin> set keys"
      using Cons.prems(1) True by simp
    then have "fst (assign obj q keys
        (f(k := placeholder_group (length out) (length (param_values obj k))),
         out @ param_values obj k)) k
        = placeholder_group (length out) (length (param_values obj k))"
      by (simp add: assign_other)
    then show ?thesis
      using True Cons.prems(3) by (simp add: assign_cases found_keys_def del: assign.simps(2))
  next
    case False
    then have d: "distinct keys" and k: "k \<in> set keys"
      using Cons.prems by simp_all
    show ?thesis
    proof (cases "x \<in> set (tokens q)")
      case True
      have "fst (assign obj q keys
          (f(x := placeholder_group (length out) (length (param_values obj x))),
           out @ param_values obj x)) k
          = placeholder_group
              (length (out @ param_values obj x) + length (concat (map (param_values obj)
                 (takeWhile (\<lambda>x. x \<noteq> k) (found_keys q keys)))))
              (length (param_values obj k))"
        using d k Cons.prems(3) by (rule Cons.IH)
      then show ?thesis
        using True False by (simp add: assign_cases found_keys_def add.assoc del: assign.simps(2))
    next
      case nf: False
      have "fst (assign obj q keys (f, out)) k
          = placeholder_group
              (length out + length (concat (map (param_values obj)
                 (takeWhile (\<lambda>x. x \<noteq> k) (found_keys q keys)))))
              (length (param_values obj k))"
        using d k Cons.prems(3) by (rule Cons.IH)
      then show ?thesis
        using nf by (simp add: assign_cases found_keys_def del: assign.simps(2))
    qed
  qed
qed

lemma values_in_concat:
  assumes "k \<in> set ks"
  shows "take (length (vals k))
      (drop (length (concat (map vals (takeWhile (\<lambda>x. x \<noteq> k) ks)))) (concat (map vals ks)))
     = vals k"
proof -
  let ?pre = "takeWhile (\<lambda>x. x \<noteq> k) ks"
  let ?post = "dropWhile (\<lambda>x. x \<noteq> k) ks"
  have ne: "?post \<noteq> []"
    using assms by simp
  then have "\<not> (hd ?post \<noteq> k)"
    by (rule hd_dropWhile)
  then obtain rest where p: "?post = k # rest"
    using ne by (cases ?post) auto
  have "ks = ?pre @ k # rest"
    using takeWhile_dropWhile_id [of "\<lambda>x. x \<noteq> k" ks] p by simp
  then have "concat (map vals ks) = concat (map vals ?pre) @ vals k @ concat (map vals rest)"
    by (metis concat.simps(2) concat_append list.simps(9) map_append)
  then show ?thesis by simp
qed

lemma count_list_distinct: "distinct xs \<Longrightarrow> x \<in> set xs \<Longrightarrow> count_list xs x = 1"
  by (induction xs) auto

lemma assign_upd_commute:
  "k \<notin> set keys
    \<Longrightarrow> assign obj q keys (f(k := r), out)
        = (case assign obj q keys (f, out) of (f', out') \<Rightarrow> (f'(k := r), out'))"
proof (induction keys arbitrary: f out)
  case Nil
  show ?case by (simp only: assign.simps prod.case)
next
  case (Cons x keys)
  then have xk: "x \<noteq> k" and nk: "k \<notin> set keys"
    by auto
  have tw: "\<And>g. (f(k := r))(x := g) = (f(x := g))(k := r)"
    using xk by (rule fun_upd_twist [symmetric])
  note ih = Cons.IH [OF nk]
  show ?case
  proof (cases "x \<in> set (tokens q)")
    case True
    show ?thesis
      by (simp only: assign_cases True if_True tw ih)
  next
    case False
    show ?thesis
      by (simp only: assign_cases False if_False ih)
  qed
qed

lemma assign_without_empty:
  "distinct keys \<Longrightarrow> k \<in> set keys \<Longrightarrow> k \<in> set (tokens q) \<Longrightarrow> js_get obj k = Array []
    \<Longrightarrow> assign obj q keys (f, out)
        = (case assign obj q (removeAll k keys) (f, out) of (f', out') \<Rightarrow> (f'(k := []), out'))"
proof (induction keys arbitrary: f out)
  case Nil
  then show ?case by simp
next
  case (Cons x keys)
  show ?case
  proof (cases "x = k")
    case True
    have nk: "k \<notin> set keys"
      using Cons.prems(1) True by simp
    have pv: "param_values obj k = []"
      using Cons.prems(4) by (simp add: param_values_def)
    have pg: "placeholder_group (length out) (length ([] :: 'a jsval list)) = []"
      by simp
    have rm: "removeAll k (x # keys) = keys"
      using True nk by simp
    have "assign obj q (x # keys) (f, out) = assign obj q keys (f(k := []), out)"
      by (simp only: assign_cases True Cons.prems(3) if_True pv pg append_Nil2)
    also have "\<dots> = (case assign obj q keys (f, out) of (f', out') \<Rightarrow> (f'(k := []), out'))"
      using nk by (rule assign_upd_commute)
    finally show ?thesis
      by (simp only: rm)
  next
    case False
    then have d: "distinct keys" and k: "k \<in> set keys"
      using Cons.prems by simp_all
    note ih = Cons.IH [OF d k Cons.prems(3,4)]
    have rm: "removeAll k (x # keys) = x # removeAll k keys"
      using False by simp
    show ?thesis
    proof (cases "x \<in> set (tokens q)")
      case True
      show ?thesis
        by (simp only: rm assign_cases True if_True ih)
    next
      case nf: False
      show ?thesis
        by (simp only: rm assign_cases nf if_False ih)
    qed
  qed
qed

lemma subst_at_two:
  assumes "named_key k" and "nonident_start v" and "nonident_start w"
  shows "subst g (u @ k @ v @ k @ w) = subst g u @ g k @ subst g v @ g k @ subst g w"
proof -
  obtain body where k: "k = CHR ''$'' # body"
    using named_keyD [OF assms(1)] by blast
  have "nonident_start (v @ k @ w)"
    using assms(2) k by (cases v) (simp_all add: nonident_start_def ident_char_def)
  then have "subst g (u @ k @ (v @ k @ w)) = subst g u @ g k @ subst g (v @ k @ w)"
    using assms(1) by (intro subst_at_key)
  moreover have "subst g (v @ k @ w) = subst g v @ g k @ subst g w"
    using assms(1,3) by (rule subst_at_key)
  ultimately show ?thesis by simp
qed

lemma transformQuery_single_empty:
  assumes "startsWith_dollar key" and "literal_key key" and "occurs key q"
  shows "transformQuery q (ParamObject [(key, Array [] :: 'v jsval)])
     = Inr (replace_all key [] q, Some [])"
proof -
  let ?obj = "[(key, Array [] :: 'v jsval)]"
  have g: "js_get ?obj key = Array []"
    by (simp add: js_get_def)
  have k: "sortKeys (Object_keys ?obj) = [key]"
    using assms(1) by (simp add: Object_keys_dollar sortKeys_single)
  have "transformLoop ?obj [key] (q, [])
      = transformLoop ?obj [] (replace_all key (placeholder_group (length ([] :: 'v jsval list)) (length ([] :: 'v jsval list))) q, [] @ [])"
    using assms g by (rule transformLoop_step_array)
  then have "transformLoop ?obj [key] (q, []) = Inr (replace_all key [] q, [])"
    by (simp del: transformLoop.simps(2))
  then show ?thesis
    by (simp add: transformQuery_def k del: transformLoop.simps(2))
qed

subsection \<open>Empty array values\<close>

text \<open>
  Claim C9, as stated: a key whose value is an empty array disappears from the rewritten
  query. The occurrences are removed in one pass over the query, and the text on the two
  sides of a removed occurrence can join to a new occurrence of the key that stays.
\<close>

theorem removed_key_reappears:
  "transformQuery ''x = $$idsids'' (ParamObject [(''$ids'', Array [])])
     = Inr (''x = $ids'', Some ([] :: string jsval list))
   \<and> occurs ''$ids'' ''x = $ids''"
proof -
  have "transformQuery ''x = $$idsids'' (ParamObject [(''$ids'', Array [] :: string jsval)])
      = Inr (replace_all ''$ids'' [] ''x = $$idsids'', Some [])"
    by (rule transformQuery_single_empty)
      (simp_all add: startsWith_dollar_def literal_key_def rx_special_def backslash_def)
  then show ?thesis by simp
qed

text \<open>
  Claim C9, amended. When the keys of the object are distinct named placeholders and
  every token of the query is a key or has no key as a prefix, a key that is a token of
  the query and whose value is an empty array is replaced by the empty text and adds no
  parameter: the result of \<open>transformQuery\<close> is the substitution by tokens that the
  other keys give, with the empty text for this key, and the parameter list is the one
  of the other keys that are tokens of the query. An occurrence of the key that ends where
  no identifier character follows is removed from the query.
\<close>

theorem empty_array_value:
  "(distinct (map fst obj) \<and> (\<forall>k \<in> set (map fst obj). named_key k)
        \<and> (\<forall>t \<in> set (tokens q).
              t \<in> set (map fst obj) \<or> (\<forall>k \<in> set (map fst obj). \<not> prefix k t))
        \<and> key \<in> set (map fst obj) \<and> key \<in> set (tokens q) \<and> js_get obj key = Array [] \<longrightarrow>
      (case assign obj q (removeAll key (sortKeys (map fst obj))) (\<lambda>t. t, []) of
         (f, out) \<Rightarrow>
           transformQuery q (ParamObject obj) = Inr (subst (f(key := [])) q, Some out)
           \<and> out = concat (map (param_values obj)
                      (found_keys q (removeAll key (sortKeys (map fst obj)))))))
   \<and> (named_key key \<and> nonident_start v \<longrightarrow>
        subst (g(key := [])) (u @ key @ v) = subst (g(key := [])) u @ subst (g(key := [])) v)"
proof (rule conjI; rule impI)
  assume h: "distinct (map fst obj) \<and> (\<forall>k \<in> set (map fst obj). named_key k)
        \<and> (\<forall>t \<in> set (tokens q).
              t \<in> set (map fst obj) \<or> (\<forall>k \<in> set (map fst obj). \<not> prefix k t))
        \<and> key \<in> set (map fst obj) \<and> key \<in> set (tokens q) \<and> js_get obj key = Array []"
  let ?ks = "sortKeys (map fst obj)"
  obtain f out where r: "assign obj q (removeAll key ?ks) (\<lambda>t. t, []) = (f, out)"
    by (cases "assign obj q (removeAll key ?ks) (\<lambda>t. t, [])") blast
  have d: "distinct ?ks"
    using h by (simp only: distinct_sortKeys)
  have k: "key \<in> set ?ks"
    using h by (simp only: set_sortKeys)
  have "assign obj q ?ks (\<lambda>t. t, [])
      = (case assign obj q (removeAll key ?ks) (\<lambda>t. t, []) of
           (f', out') \<Rightarrow> (f'(key := []), out'))"
    using d k h by (intro assign_without_empty) blast+
  then have a: "assign obj q ?ks (\<lambda>t. t, []) = (f(key := []), out)"
    by (simp only: r prod.case)
  have "transformQuery q (ParamObject obj)
     = (case assign obj q ?ks (\<lambda>t. t, []) of (f, out) \<Rightarrow> Inr (subst f q, Some out))"
    using h by (intro transformQuery_subst) blast+
  then have t: "transformQuery q (ParamObject obj) = Inr (subst (f(key := [])) q, Some out)"
    by (simp only: a prod.case)
  have "snd (assign obj q (removeAll key ?ks) (\<lambda>t. t, []))
      = [] @ concat (map (param_values obj) (found_keys q (removeAll key ?ks)))"
    by (rule assign_out)
  then have o: "out = concat (map (param_values obj) (found_keys q (removeAll key ?ks)))"
    by (simp add: r)
  show "case assign obj q (removeAll key ?ks) (\<lambda>t. t, []) of
         (f, out) \<Rightarrow>
           transformQuery q (ParamObject obj) = Inr (subst (f(key := [])) q, Some out)
           \<and> out = concat (map (param_values obj) (found_keys q (removeAll key ?ks)))"
    using t o by (simp only: r prod.case)
next
  assume h: "named_key key \<and> nonident_start v"
  have "subst (g(key := [])) (u @ key @ v)
      = subst (g(key := [])) u @ (g(key := [])) key @ subst (g(key := [])) v"
    using h by (intro subst_at_key) blast+
  also have "(g(key := [])) key = []"
    by simp
  finally show "subst (g(key := [])) (u @ key @ v)
      = subst (g(key := [])) u @ subst (g(key := [])) v"
    by (simp only: append_Nil)
qed

theorem empty_array_value_witness:
  "transformQuery ''id IN ($ids) AND n = $name''
       (ParamObject [(''$name'', Scalar ''John''), (''$ids'', Array [])])
     = Inr (''id IN () AND n = $1'', Some [Scalar ''John''])"
proof -
  let ?q = "''id IN ($ids) AND n = $name''"
  let ?obj = "[(''$name'', Scalar ''John''), (''$ids'', Array [])]"
  have hyp: "distinct (map fst ?obj) \<and> (\<forall>k \<in> set (map fst ?obj). named_key k)
      \<and> (\<forall>t \<in> set (tokens ?q).
            t \<in> set (map fst ?obj) \<or> (\<forall>k \<in> set (map fst ?obj). \<not> prefix k t))
      \<and> ''$ids'' \<in> set (map fst ?obj) \<and> ''$ids'' \<in> set (tokens ?q)
      \<and> js_get ?obj ''$ids'' = Array []"
    by (simp add: named_key_def ident_char_def is_digit_def js_get_def)
  have sk: "removeAll ''$ids'' (sortKeys (map fst ?obj)) = [''$name'']"
    by (simp add: sortKeys_def)
  have as: "assign ?obj ?q [''$name''] (\<lambda>t. t, [])
      = ((\<lambda>t. t)(''$name'' := ''$1''), [Scalar ''John''])"
    by (simp add: ident_char_def js_get_def placeholder_def show_nat_1)
  have su: "subst ((\<lambda>t. t)(''$name'' := ''$1'', ''$ids'' := [])) ?q = ''id IN () AND n = $1''"
    by (simp add: ident_char_def)
  have "case assign ?obj ?q (removeAll ''$ids'' (sortKeys (map fst ?obj))) (\<lambda>t. t, []) of
         (f, out) \<Rightarrow>
           transformQuery ?q (ParamObject ?obj) = Inr (subst (f(''$ids'' := [])) ?q, Some out)
           \<and> out = concat (map (param_values ?obj)
                      (found_keys ?q (removeAll ''$ids'' (sortKeys (map fst ?obj)))))"
    using hyp
    by (rule mp [OF conjunct1 [OF empty_array_value [where obj = ?obj and q = ?q
        and key = "''$ids''" and v = "[]" and g = "\<lambda>t. t" and u = "[]"]]])
  then have "transformQuery ?q (ParamObject ?obj)
      = Inr (subst ((\<lambda>t. t)(''$name'' := ''$1'', ''$ids'' := [])) ?q, Some [Scalar ''John''])"
    unfolding sk as by (simp only: prod.case)
  then show ?thesis
    by (simp only: su)
qed

subsection \<open>A key that occurs more than once\<close>

text \<open>
  Claim C10, as stated: every occurrence of a key is replaced by the same placeholder.
  A key processed later is also searched in the placeholders written for the earlier
  keys together with the text that follows them. With the keys \<open>$id\<close> and \<open>$1,\<close>
  the two occurrences of \<open>$id\<close> are first replaced by \<open>$1\<close>; the first of them,
  followed by a comma, is then replaced again, and the two occurrences end with
  different indices.
\<close>

theorem later_key_splits_occurrences:
  "transformQuery ''a IN ($id, $id)'' (ParamObject [(''$id'', Scalar ''7''), (''$1,'', Scalar ''9'')])
     = Inr (''a IN ($2 $1)'', Some [Scalar ''7'', Scalar ''9''])
   \<and> placeholders ''a IN ($2 $1)'' = [2, 1]"
proof -
  let ?q = "''a IN ($id, $id)''"
  let ?obj = "[(''$id'', Scalar ''7''), (''$1,'', Scalar ''9'')]"
  have k: "sortKeys (Object_keys ?obj) = [''$id'', ''$1,'']"
    by (simp add: Object_keys_def array_index_def is_digit_def sortKeys_def)
  have s2: "show_nat (Suc (Suc 0)) = ''2''"
    by (simp add: show_nat.simps digit_char_def)
  have p1: "startsWith_dollar ''$id''" "literal_key ''$id''" "occurs ''$id'' ?q"
    "\<not> isArray (js_get ?obj ''$id'')"
    by (simp_all add: startsWith_dollar_def literal_key_def rx_special_def backslash_def js_get_def)
  have p2: "startsWith_dollar ''$1,''" "literal_key ''$1,''" "occurs ''$1,'' ''a IN ($1, $1)''"
    "\<not> isArray (js_get ?obj ''$1,'')"
    by (simp_all add: startsWith_dollar_def literal_key_def rx_special_def backslash_def js_get_def)
  have "transformLoop ?obj [''$id'', ''$1,''] (?q, [])
      = transformLoop ?obj [''$1,'']
          (replace_all ''$id'' (placeholder (length ([] :: string jsval list) + 1)) ?q,
           [] @ [js_get ?obj ''$id''])"
    using p1 by (rule transformLoop_step_scalar)
  also have "\<dots> = transformLoop ?obj [''$1,''] (''a IN ($1, $1)'', [Scalar ''7''])"
    by (simp add: placeholder_def show_nat_1 js_get_def del: transformLoop.simps(2))
  also have "\<dots> = transformLoop ?obj []
          (replace_all ''$1,'' (placeholder (length [Scalar ''7''] + 1)) ''a IN ($1, $1)'',
           [Scalar ''7''] @ [js_get ?obj ''$1,''])"
    using p2 by (rule transformLoop_step_scalar)
  also have "\<dots> = Inr (''a IN ($2 $1)'', [Scalar ''7'', Scalar ''9''])"
    by (simp add: placeholder_def s2 js_get_def)
  finally have t: "transformQuery ?q (ParamObject ?obj)
      = Inr (''a IN ($2 $1)'', Some [Scalar ''7'', Scalar ''9''])"
    by (simp add: transformQuery_def k del: transformLoop.simps(2))
  have "placeholders ''a IN ($2 $1)'' = [2, 1]"
    by (simp add: is_digit_def digits_value_def digit_val_def)
  with t show ?thesis by blast
qed

text \<open>
  Claim C10, amended. When the keys of the object are distinct named placeholders and
  every token of the query is a key or has no key as a prefix, a key that is a token of
  the query, however often, is handled once: the result of \<open>transformQuery\<close> is the
  substitution by tokens, which gives every occurrence of the key the same text; the
  parameter list is the concatenation of the values of the keys that are tokens of the
  query, in the order of processing, where the key stands once; the text of the key is
  the group of the consecutive placeholders that follow the parameters of the keys
  before it, one for a scalar value and one for each item of an array; and the values at
  these indices are the values of the key. Two occurrences of the key that end where
  no identifier character follows are replaced by the same text.
\<close>

theorem repeated_key_shares_placeholder:
  "(distinct (map fst obj) \<and> (\<forall>k \<in> set (map fst obj). named_key k)
        \<and> (\<forall>t \<in> set (tokens q).
              t \<in> set (map fst obj) \<or> (\<forall>k \<in> set (map fst obj). \<not> prefix k t))
        \<and> key \<in> set (map fst obj) \<and> key \<in> set (tokens q) \<longrightarrow>
      (let found = found_keys q (sortKeys (map fst obj));
           n = length (concat (map (param_values obj) (takeWhile (\<lambda>k. k \<noteq> key) found)));
           m = length (param_values obj key)
       in case assign obj q (sortKeys (map fst obj)) (\<lambda>t. t, []) of
            (f, out) \<Rightarrow>
              transformQuery q (ParamObject obj) = Inr (subst f q, Some out)
              \<and> out = concat (map (param_values obj) found)
              \<and> count_list found key = 1
              \<and> f key = placeholder_group n m
              \<and> take m (drop n out) = param_values obj key
              \<and> (\<not> isArray (js_get obj key) \<longrightarrow>
                    f key = placeholder (n + 1) \<and> out ! n = js_get obj key)))
   \<and> (named_key key \<and> nonident_start v \<and> nonident_start w \<longrightarrow>
        subst g (u @ key @ v @ key @ w) = subst g u @ g key @ subst g v @ g key @ subst g w)"
proof (rule conjI; rule impI)
  assume h: "distinct (map fst obj) \<and> (\<forall>k \<in> set (map fst obj). named_key k)
        \<and> (\<forall>t \<in> set (tokens q).
              t \<in> set (map fst obj) \<or> (\<forall>k \<in> set (map fst obj). \<not> prefix k t))
        \<and> key \<in> set (map fst obj) \<and> key \<in> set (tokens q)"
  let ?ks = "sortKeys (map fst obj)"
  let ?found = "found_keys q ?ks"
  let ?n = "length (concat (map (param_values obj) (takeWhile (\<lambda>k. k \<noteq> key) ?found)))"
  let ?m = "length (param_values obj key)"
  obtain f out where r: "assign obj q ?ks (\<lambda>t. t, []) = (f, out)"
    by (cases "assign obj q ?ks (\<lambda>t. t, [])") blast
  have d: "distinct ?ks"
    using h by (simp only: distinct_sortKeys)
  have k: "key \<in> set ?ks"
    using h by (simp only: set_sortKeys)
  have kt: "key \<in> set (tokens q)"
    using h by blast
  have "transformQuery q (ParamObject obj)
     = (case assign obj q ?ks (\<lambda>t. t, []) of (f, out) \<Rightarrow> Inr (subst f q, Some out))"
    using h by (intro transformQuery_subst) blast+
  then have t: "transformQuery q (ParamObject obj) = Inr (subst f q, Some out)"
    by (simp only: r prod.case)
  have "snd (assign obj q ?ks (\<lambda>t. t, [])) = [] @ concat (map (param_values obj) ?found)"
    by (rule assign_out)
  then have o: "out = concat (map (param_values obj) ?found)"
    by (simp add: r)
  have kf: "key \<in> set ?found"
    using k kt by (simp add: found_keys_def)
  have "distinct ?found"
    using d by (simp add: found_keys_def)
  then have c: "count_list ?found key = 1"
    using kf by (rule count_list_distinct)
  have "fst (assign obj q ?ks (\<lambda>t. t, [])) key
      = placeholder_group (length ([] :: 'a jsval list) + ?n) ?m"
    using d k kt by (rule assign_text)
  then have fk: "f key = placeholder_group ?n ?m"
    by (simp add: r)
  have v: "take ?m (drop ?n out) = param_values obj key"
    unfolding o using kf by (rule values_in_concat)
  have sc: "\<not> isArray (js_get obj key) \<longrightarrow>
      f key = placeholder (?n + 1) \<and> out ! ?n = js_get obj key"
  proof
    assume na: "\<not> isArray (js_get obj key)"
    then have pv: "param_values obj key = [js_get obj key]"
      by (simp add: param_values_def)
    have f1: "f key = placeholder (?n + 1)"
      using fk by (simp add: pv)
    have tk: "take (Suc 0) (drop ?n out) = [js_get obj key]"
      using v by (simp add: pv)
    then have ne: "drop ?n out \<noteq> []"
      by auto
    then have lt: "?n < length out"
      by simp
    have "hd (drop ?n out) = js_get obj key"
      using tk ne by (cases "drop ?n out") simp_all
    then have "out ! ?n = js_get obj key"
      using lt by (simp add: hd_drop_conv_nth)
    with f1 show "f key = placeholder (?n + 1) \<and> out ! ?n = js_get obj key"
      by blast
  qed
  have "case assign obj q ?ks (\<lambda>t. t, []) of
            (f, out) \<Rightarrow>
              transformQuery q (ParamObject obj) = Inr (subst f q, Some out)
              \<and> out = concat (map (param_values obj) ?found)
              \<and> count_list ?found key = 1
              \<and> f key = placeholder_group ?n ?m
              \<and> take ?m (drop ?n out) = param_values obj key
              \<and> (\<not> isArray (js_get obj key) \<longrightarrow>
                    f key = placeholder (?n + 1) \<and> out ! ?n = js_get obj key)"
    using t o c fk v sc by (simp only: r prod.case)
  then show "let found = found_keys q (sortKeys (map fst obj));
           n = length (concat (map (param_values obj) (takeWhile (\<lambda>k. k \<noteq> key) found)));
           m = length (param_values obj key)
       in case assign obj q (sortKeys (map fst obj)) (\<lambda>t. t, []) of
            (f, out) \<Rightarrow>
              transformQuery q (ParamObject obj) = Inr (subst f q, Some out)
              \<and> out = concat (map (param_values obj) found)
              \<and> count_list found key = 1
              \<and> f key = placeholder_group n m
              \<and> take m (drop n out) = param_values obj key
              \<and> (\<not> isArray (js_get obj key) \<longrightarrow>
                    f key = placeholder (n + 1) \<and> out ! n = js_get obj key)"
    by (simp only: Let_def)
next
  assume "named_key key \<and> nonident_start v \<and> nonident_start w"
  then show "subst g (u @ key @ v @ key @ w)
      = subst g u @ g key @ subst g v @ g key @ subst g w"
    by (intro subst_at_two) blast+
qed

theorem repeated_key_shares_placeholder_witness:
  "transformQuery ''a IN ($ids) OR b IN ($ids) OR n = $name''
       (ParamObject [(''$name'', Scalar ''z''), (''$ids'', Array [Scalar ''1'', Scalar ''2''])])
     = Inr (''a IN ($2, $3) OR b IN ($2, $3) OR n = $1'',
            Some [Scalar ''z'', Scalar ''1'', Scalar ''2''])"
proof -
  let ?q = "''a IN ($ids) OR b IN ($ids) OR n = $name''"
  let ?obj = "[(''$name'', Scalar ''z''), (''$ids'', Array [Scalar ''1'', Scalar ''2''])]"
  have hyp: "distinct (map fst ?obj) \<and> (\<forall>k \<in> set (map fst ?obj). named_key k)
      \<and> (\<forall>t \<in> set (tokens ?q).
            t \<in> set (map fst ?obj) \<or> (\<forall>k \<in> set (map fst ?obj). \<not> prefix k t))
      \<and> ''$ids'' \<in> set (map fst ?obj) \<and> ''$ids'' \<in> set (tokens ?q)"
    by (simp add: named_key_def ident_char_def is_digit_def)
  have sk: "sortKeys (map fst ?obj) = [''$name'', ''$ids'']"
    by (simp add: sortKeys_def)
  have s2: "show_nat (Suc (Suc 0)) = ''2''" and s3: "show_nat (Suc (Suc (Suc 0))) = ''3''"
    by (simp_all add: show_nat.simps digit_char_def)
  have as: "assign ?obj ?q [''$name'', ''$ids''] (\<lambda>t. t, [])
      = ((\<lambda>t. t)(''$name'' := ''$1'', ''$ids'' := ''$2, $3''),
         [Scalar ''z'', Scalar ''1'', Scalar ''2''])"
    by (simp add: ident_char_def js_get_def placeholder_def show_nat_1 s2 s3 numeral_2_eq_2)
  have su: "subst ((\<lambda>t. t)(''$name'' := ''$1'', ''$ids'' := ''$2, $3'')) ?q
      = ''a IN ($2, $3) OR b IN ($2, $3) OR n = $1''"
    by (simp add: ident_char_def)
  have "let found = found_keys ?q (sortKeys (map fst ?obj));
           n = length (concat (map (param_values ?obj) (takeWhile (\<lambda>k. k \<noteq> ''$ids'') found)));
           m = length (param_values ?obj ''$ids'')
       in case assign ?obj ?q (sortKeys (map fst ?obj)) (\<lambda>t. t, []) of
            (f, out) \<Rightarrow>
              transformQuery ?q (ParamObject ?obj) = Inr (subst f ?q, Some out)
              \<and> out = concat (map (param_values ?obj) found)
              \<and> count_list found ''$ids'' = 1
              \<and> f ''$ids'' = placeholder_group n m
              \<and> take m (drop n out) = param_values ?obj ''$ids''
              \<and> (\<not> isArray (js_get ?obj ''$ids'') \<longrightarrow>
                    f ''$ids'' = placeholder (n + 1) \<and> out ! n = js_get ?obj ''$ids'')"
    using hyp
    by (rule mp [OF conjunct1 [OF repeated_key_shares_placeholder [where obj = ?obj and q = ?q
        and key = "''$ids''" and v = "[]" and w = "[]" and g = "\<lambda>t. t" and u = "[]"]]])
  then have "transformQuery ?q (ParamObject ?obj)
      = Inr (subst ((\<lambda>t. t)(''$name'' := ''$1'', ''$ids'' := ''$2, $3'')) ?q,
             Some [Scalar ''z'', Scalar ''1'', Scalar ''2''])"
    unfolding sk as Let_def by (simp only: prod.case)
  then show ?thesis
    by (simp only: su)
qed

end
